theory Spec2Isabelle
  imports Complex_Main
begin

section \<open>Domain types (internal/domain)\<close>

text \<open>
  \<^verbatim>\<open>domain.Embedding\<close> and \<^verbatim>\<open>domain.SimilarChunk\<close> (which embeds it). The components of a
  vector and the similarity are floating-point numbers that the code only carries from
  the provider to the store and back, never computes with; they are \<open>real\<close> here.
\<close>

record Embedding =
  ID :: string
  SnapshotID :: string
  RepoID :: string
  FilePath :: string
  ChunkIndex :: int
  Content :: string
  Language :: string
  Vector :: "real list"
  CreatedAt :: nat

record SimilarChunk = Embedding +
  Similarity :: real

section \<open>Job Tracker (internal/handler/jobs.go)\<close>

text \<open>
  Instants of \<^verbatim>\<open>time.Time\<close> are natural numbers; \<open>0\<close> stands for the zero value of
  the struct field. Go's \<^verbatim>\<open>int\<close> is modelled by \<open>int\<close>: the only values the code stores
  are loop indices and slice lengths, which cannot overflow 64 bits.
\<close>

type_synonym Time = nat

record JobStatus =
  ID :: string
  RepoID :: string
  Status :: string
  Progress :: int
  Total :: int
  Current :: string
  Results :: "string list"
  Error :: string
  StartedAt :: Time
  CompletedAt :: Time

text \<open>
  A value of type \<^verbatim>\<open>chan JobStatus\<close> is a reference to a buffered channel. The channels
  created so far form a heap (a list, a reference being an index into it); a reference
  outside the heap plays the role of the nil channel. A channel is its buffered messages
  (oldest first), its capacity, and whether \<^verbatim>\<open>close\<close> was called on it.
\<close>

record chan =
  buf :: "JobStatus list"
  cap :: nat
  closed :: bool

type_synonym chan_ref = nat

datatype panic = SendOnClosedChannel | CloseOfClosedChannel | CloseOfNilChannel
  | NilPointerDereference | IndexOutOfRange

text \<open>
  The tracker: the \<^verbatim>\<open>jobs\<close> map, the \<^verbatim>\<open>subs\<close> map (a missing key reads as the nil
  slice, so the map is a total function with default \<open>[]\<close>), and the heap of the channels
  handed out by \<^verbatim>\<open>Subscribe\<close>. \<^verbatim>\<open>CreateJob\<close>, \<^verbatim>\<open>GetJob\<close>, \<^verbatim>\<open>Subscribe\<close> and
  \<^verbatim>\<open>Unsubscribe\<close> hold the mutex from start to end, so each is one atomic function on
  this state. \<^verbatim>\<open>UpdateJob\<close> holds it while it writes the job and copies the subscriber
  list, and sends to the subscribers after releasing it.
\<close>

record JobTracker =
  jobs :: "string \<rightharpoonup> JobStatus"
  subs :: "string \<Rightarrow> chan_ref list"
  chans :: "chan list"

definition NewJobTracker :: JobTracker where
  "NewJobTracker = \<lparr>jobs = Map.empty, subs = (\<lambda>_. []), chans = []\<rparr>"

definition CreateJob :: "string \<Rightarrow> string \<Rightarrow> int \<Rightarrow> Time \<Rightarrow> JobTracker \<Rightarrow> JobTracker" where
  "CreateJob jid repoID total_steps now t =
     t\<lparr>jobs := (jobs t)(jid \<mapsto>
         \<lparr>ID = jid, RepoID = repoID, Status = ''running'', Progress = 0, Total = total_steps,
          Current = [], Results = [], Error = [], StartedAt = now, CompletedAt = 0\<rparr>)\<rparr>"

text \<open>
  \<^verbatim>\<open>select { case ch <- snapshot: default: }\<close>: the send happens when the buffer has room;
  when it is full (or the channel is nil) the default branch is taken and nothing
  changes; a send on a closed channel panics.
\<close>

definition try_send :: "chan_ref \<Rightarrow> JobStatus \<Rightarrow> chan list \<Rightarrow> panic + chan list" where
  "try_send ch v h =
     (if ch < length h then
        (let c = h ! ch in
         if closed c then Inl SendOnClosedChannel
         else if length (buf c) < cap c then Inr (h[ch := c\<lparr>buf := buf c @ [v]\<rparr>])
         else Inr h)
      else Inr h)"

text \<open>The loop \<^verbatim>\<open>for _, ch := range subs\<close> of \<^verbatim>\<open>UpdateJob\<close>.\<close>

fun notify :: "chan_ref list \<Rightarrow> JobStatus \<Rightarrow> chan list \<Rightarrow> panic + chan list" where
  "notify [] snapshot h = Inr h"
| "notify (ch # rest) snapshot h =
     (case try_send ch snapshot h of
        Inl p \<Rightarrow> Inl p
      | Inr h' \<Rightarrow> notify rest snapshot h')"

text \<open>The assignments \<^verbatim>\<open>UpdateJob\<close> makes to the stored job, in source order.\<close>

definition apply_update :: "string \<Rightarrow> int \<Rightarrow> string \<Rightarrow> Time \<Rightarrow> JobStatus \<Rightarrow> JobStatus" where
  "apply_update strategy progress status now job =
     (let job1 = job\<lparr>Progress := progress, Current := strategy, Status := status\<rparr>;
          job2 = (if strategy \<noteq> [] \<and> status \<noteq> ''error''
                  then job1\<lparr>Results := Results job1 @ [strategy]\<rparr> else job1)
      in if status = ''complete'' \<or> status = ''error''
         then job2\<lparr>CompletedAt := now\<rparr> else job2)"

text \<open>
  The critical section of \<^verbatim>\<open>UpdateJob\<close>: \<open>None\<close> when the id is unknown (the early
  return), else the snapshot \<^verbatim>\<open>*job\<close>, the subscriber list \<^verbatim>\<open>t.subs[id]\<close> and the tracker
  with the job written.
\<close>

definition UpdateJob_locked ::
  "string \<Rightarrow> string \<Rightarrow> int \<Rightarrow> string \<Rightarrow> Time \<Rightarrow> JobTracker \<Rightarrow>
   (JobStatus \<times> chan_ref list \<times> JobTracker) option" where
  "UpdateJob_locked jid strategy progress status now t =
     (case jobs t jid of
        None \<Rightarrow> None
      | Some job \<Rightarrow>
          (let snapshot = apply_update strategy progress status now job
           in Some (snapshot, subs t jid, t\<lparr>jobs := (jobs t)(jid \<mapsto> snapshot)\<rparr>)))"

text \<open>
  \<^verbatim>\<open>UpdateJob\<close>: the critical section, then the sends. The sends are run right after the
  critical section, with no tracker operation of another goroutine in between.
\<close>

definition UpdateJob ::
  "string \<Rightarrow> string \<Rightarrow> int \<Rightarrow> string \<Rightarrow> Time \<Rightarrow> JobTracker \<Rightarrow> panic + JobTracker" where
  "UpdateJob jid strategy progress status now t =
     (case UpdateJob_locked jid strategy progress status now t of
        None \<Rightarrow> Inr t
      | Some (snapshot, subscribers, t') \<Rightarrow>
          (case notify subscribers snapshot (chans t') of
             Inl p \<Rightarrow> Inl p
           | Inr h \<Rightarrow> Inr (t'\<lparr>chans := h\<rparr>)))"

definition GetJob :: "string \<Rightarrow> JobTracker \<Rightarrow> JobStatus option" where
  "GetJob jid t = jobs t jid"

definition Subscribe :: "string \<Rightarrow> JobTracker \<Rightarrow> chan_ref \<times> JobTracker" where
  "Subscribe jid t =
     (let ch = length (chans t)
      in (ch, t\<lparr>subs := (subs t)(jid := subs t jid @ [ch]),
                chans := chans t @ [\<lparr>buf = [], cap = 10, closed = False\<rparr>]\<rparr>))"

text \<open>
  \<^verbatim>\<open>Unsubscribe\<close> removes the first occurrence of the channel from the list of the id
  and then closes the channel, whether it was found or not.
\<close>

definition Unsubscribe :: "string \<Rightarrow> chan_ref \<Rightarrow> JobTracker \<Rightarrow> panic + JobTracker" where
  "Unsubscribe jid ch t =
     (let t' = (if ch \<in> set (subs t jid)
                then t\<lparr>subs := (subs t)(jid := remove1 ch (subs t jid))\<rparr> else t)
      in if ch < length (chans t') then
           (if closed (chans t' ! ch) then Inl CloseOfClosedChannel
            else Inr (t'\<lparr>chans := (chans t')[ch := (chans t' ! ch)\<lparr>closed := True\<rparr>]\<rparr>))
         else Inl CloseOfNilChannel)"

text \<open>
  A subscriber taking one message off its channel (\<^verbatim>\<open>update, ok := <-ch\<close> in
  \<^verbatim>\<open>StreamSSE\<close>); \<open>None\<close> when nothing is buffered.
\<close>

definition receive :: "chan_ref \<Rightarrow> JobTracker \<Rightarrow> (JobStatus option \<times> JobTracker)" where
  "receive ch t =
     (if ch < length (chans t) then
        (case buf (chans t ! ch) of
           [] \<Rightarrow> (None, t)
         | v # vs \<Rightarrow> (Some v, t\<lparr>chans := (chans t)[ch := (chans t ! ch)\<lparr>buf := vs\<rparr>]\<rparr>))
      else (None, t))"

definition terminal :: "string \<Rightarrow> bool" where
  "terminal status \<longleftrightarrow> status = ''complete'' \<or> status = ''error''"

subsection \<open>Auxiliary notions for the tracker\<close>

text \<open>
  No channel of the list is closed, so that every send of \<^verbatim>\<open>UpdateJob\<close> is defined.
  \<^verbatim>\<open>Subscribe\<close> only hands out open channels, and \<^verbatim>\<open>Unsubscribe\<close> takes a channel off
  the list of its id before closing it.
\<close>

definition sendable :: "chan_ref list \<Rightarrow> chan list \<Rightarrow> bool" where
  "sendable refs h = list_all (\<lambda>ch. ch < length h \<longrightarrow> \<not> closed (h ! ch)) refs"

text \<open>What one non-blocking send does to a channel: enqueue when there is room, else nothing.\<close>

definition deliver :: "JobStatus \<Rightarrow> chan \<Rightarrow> chan" where
  "deliver v c = (if length (buf c) < cap c then c\<lparr>buf := buf c @ [v]\<rparr> else c)"

text \<open>The job stored under an id after a tracker operation that may panic.\<close>

definition job_after :: "panic + JobTracker \<Rightarrow> string \<Rightarrow> JobStatus option" where
  "job_after r jid = (case r of Inl p \<Rightarrow> None | Inr t \<Rightarrow> jobs t jid)"

text \<open>A tracker holding one job that has already been marked complete.\<close>

definition finished_tracker :: JobTracker where
  "finished_tracker =
     (case UpdateJob ''job-0001'' [] 1 ''complete'' 5 (CreateJob ''job-0001'' ''repo-1'' 1 0 NewJobTracker) of
        Inl p \<Rightarrow> NewJobTracker
      | Inr t \<Rightarrow> t)"

text \<open>
  The trackers that the operations can produce from the empty one, a channel being
  unsubscribed under the id it is subscribed under (as \<^verbatim>\<open>StreamSSE\<close> does).
\<close>

inductive reachable :: "JobTracker \<Rightarrow> bool" where
  reach_new: "reachable NewJobTracker"
| reach_create: "reachable t \<Longrightarrow> reachable (CreateJob jid repoID total_steps now t)"
| reach_update:
    "reachable t \<Longrightarrow> UpdateJob jid strategy progress status now t = Inr t' \<Longrightarrow> reachable t'"
| reach_subscribe: "reachable t \<Longrightarrow> reachable (snd (Subscribe jid t))"
| reach_receive: "reachable t \<Longrightarrow> reachable (snd (receive ch t))"
| reach_unsubscribe:
    "reachable t \<Longrightarrow> ch \<in> set (subs t jid) \<Longrightarrow> Unsubscribe jid ch t = Inr t' \<Longrightarrow> reachable t'"

section \<open>Analysis Orchestrator (internal/handler/analysis_handler.go)\<close>

text \<open>
  \<^verbatim>\<open>port.AnalysisResult\<close>; \<^verbatim>\<open>Details\<close> is the raw JSON text. A \<^verbatim>\<open>float64\<close> score is only
  carried from the strategy to the store (no arithmetic is done on it), so it is a
  \<open>real\<close> here.
\<close>

record AnalysisResult =
  Strategy :: string
  Summary :: string
  Details :: string
  Score :: real
  Suggestions :: "string list"
  Diagrams :: "(string \<times> string \<times> string) list"

text \<open>The columns \<^verbatim>\<open>SaveAnalysisResultFull\<close> inserts into \<^verbatim>\<open>analysis_results\<close>
  (\<^verbatim>\<open>repo_id\<close>, \<^verbatim>\<open>strategy\<close>, \<^verbatim>\<open>summary\<close>, \<^verbatim>\<open>details\<close>, \<^verbatim>\<open>score\<close>, \<^verbatim>\<open>summary_translated\<close>).\<close>

record AnalysisResultRow =
  col_repo_id :: string
  col_strategy :: string
  col_summary :: string
  col_details :: string
  col_score :: real
  col_summary_translated :: string

text \<open>
  The collaborators of the background loop. Each answer of the outside world is read
  from a function, tagged so that two calls with equal arguments may answer differently:
  \<^item> \<open>engine_Run i attempt name req\<close>: the outcome of \<^verbatim>\<open>engine.Run\<close> in iteration \<open>i\<close> of
    the strategy loop at the given attempt (\<open>Inl\<close> the error text);
  \<^item> \<open>ai_Chat i system user context\<close>: the outcome of the \<^verbatim>\<open>Chat\<close> call of
    \<^verbatim>\<open>translateReport\<close> in iteration \<open>i\<close>;
  \<^item> \<open>db_Exec n\<close>: the error of the \<open>n\<close>-th \<^verbatim>\<open>INSERT\<close> on the database, \<open>None\<close> when
    it succeeds;
  \<^item> \<open>json_Valid\<close>, \<open>json_Marshal\<close> (of a \<^verbatim>\<open>json.RawMessage\<close>, the empty text when it
    fails) and \<open>json_Marshal_raw\<close> (of the map \<^verbatim>\<open>{"raw": details}\<close>): the functions of
    \<^verbatim>\<open>encoding/json\<close> the code calls.
  The analysis request is opaque to the loop and is a type parameter.
\<close>

record 'req analysis_env =
  engine_Run :: "nat \<Rightarrow> nat \<Rightarrow> string \<Rightarrow> 'req \<Rightarrow> string + AnalysisResult"
  ai_Chat :: "nat \<Rightarrow> string \<Rightarrow> string \<Rightarrow> string list \<Rightarrow> string + string"
  db_Exec :: "nat \<Rightarrow> string option"
  json_Valid :: "string \<Rightarrow> bool"
  json_Marshal :: "string \<Rightarrow> string"
  json_Marshal_raw :: "string \<Rightarrow> string"

text \<open>\<^verbatim>\<open>AnalysisService.RunStrategy\<close> (service layer): wraps the error of the engine.\<close>

definition RunStrategy ::
  "'req analysis_env \<Rightarrow> nat \<Rightarrow> nat \<Rightarrow> string \<Rightarrow> 'req \<Rightarrow> string + AnalysisResult" where
  "RunStrategy env i attempt strategyName req =
     (case engine_Run env i attempt strategyName req of
        Inl err \<Rightarrow> Inl (''run strategy '' @ strategyName @ '': '' @ err)
      | Inr result \<Rightarrow> Inr result)"

text \<open>
  What the loop does to the outside, in order: the calls on the tracker, the attempts,
  the sleeps between attempts and the inserts. \<open>EvNilDeref\<close> is the read of
  \<^verbatim>\<open>result.Summary\<close> through a nil pointer.
\<close>

datatype event =
    EvUpdateJob string string int string
  | EvRunStrategy string nat
  | EvSleep nat
  | EvSave string string string string real string
  | EvNilDeref

text \<open>
  The retry loop \<^verbatim>\<open>for attempt := 0; attempt <= maxRetries; attempt++\<close>, carrying the
  variables \<^verbatim>\<open>result\<close> and \<^verbatim>\<open>err\<close>; it returns the events and the two variables at
  loop exit.
\<close>

function retry_loop ::
  "'req analysis_env \<Rightarrow> nat \<Rightarrow> string \<Rightarrow> 'req \<Rightarrow> nat \<Rightarrow> nat \<Rightarrow>
   AnalysisResult option \<times> string option \<Rightarrow>
   event list \<times> AnalysisResult option \<times> string option" where
  "retry_loop env i strategy req maxRetries attempt (result, err) =
     (if attempt \<le> maxRetries then
        (let pre = (if attempt > 0 then [EvSleep 5] else []) @ [EvRunStrategy strategy attempt]
         in case RunStrategy env i attempt strategy req of
              Inr res \<Rightarrow> (pre, Some res, None)
            | Inl e \<Rightarrow>
                (case retry_loop env i strategy req maxRetries (Suc attempt) (None, Some e) of
                   (evs, r) \<Rightarrow> (pre @ evs, r)))
      else ([], result, err))"
  by pat_completeness auto
termination
  by (relation "measure (\<lambda>(env, i, strategy, req, maxRetries, attempt, r). Suc maxRetries - attempt)")
    auto

text \<open>Decimal text of a number, for the \<^verbatim>\<open>%d\<close> of \<^verbatim>\<open>fmt.Sprintf\<close>.\<close>

function itoa :: "nat \<Rightarrow> string" where
  "itoa n = (if n < 10 then [''0123456789'' ! n] else itoa (n div 10) @ [''0123456789'' ! (n mod 10)])"
  by pat_completeness auto
termination
  by (relation "measure (\<lambda>n. n)") auto

text \<open>The Markdown text of the failure report; the heading starts with U+26A0 U+FE0F.\<close>

definition failSummary :: "string \<Rightarrow> nat \<Rightarrow> string \<Rightarrow> string" where
  "failSummary strategy attempts err =
     ''## '' @ [CHR 0xE2, CHR 0x9A, CHR 0xA0, CHR 0xEF, CHR 0xB8, CHR 0x8F] @
     '' Analysis Failed'' @ [CHR 0x0A, CHR 0x0A] @
     ''The **'' @ strategy @ ''** strategy could not be completed after '' @ itoa attempts @
     '' attempts.'' @ [CHR 0x0A, CHR 0x0A] @
     ''**Error:** `'' @ err @ ''`'' @ [CHR 0x0A, CHR 0x0A] @
     ''You can re-run the analysis to try again.''"

definition langNames :: "string \<rightharpoonup> string" where
  "langNames = [''es'' \<mapsto> ''Spanish'', ''pt'' \<mapsto> ''Portuguese'', ''fr'' \<mapsto> ''French'',
     ''de'' \<mapsto> ''German'', ''it'' \<mapsto> ''Italian'', ''ja'' \<mapsto> ''Japanese'',
     ''ko'' \<mapsto> ''Korean'', ''zh'' \<mapsto> ''Chinese'']"

definition translateReport :: "'req analysis_env \<Rightarrow> nat \<Rightarrow> string \<Rightarrow> string \<Rightarrow> string" where
  "translateReport env i markdown targetLang =
     (let langName0 = (case langNames targetLang of None \<Rightarrow> [] | Some n \<Rightarrow> n);
          langName = (if langName0 = [] then targetLang else langName0);
          systemPrompt =
            ''Translate the following technical report to '' @ langName @ ''. '' @ [CHR 0x0A] @
            ''Keep all Markdown formatting, Mermaid diagrams, code blocks, and technical terms intact.'' @
            [CHR 0x0A] @
            ''Only translate the natural language text. Do NOT add any commentary or explanation.''
      in case ai_Chat env i systemPrompt markdown [] of
           Inl err \<Rightarrow> []
         | Inr translated \<Rightarrow> translated)"

text \<open>One iteration of \<^verbatim>\<open>for i, strategy := range strategies\<close>.\<close>

definition strategy_step ::
  "'req analysis_env \<Rightarrow> string \<Rightarrow> string \<Rightarrow> 'req \<Rightarrow> string \<Rightarrow> nat \<Rightarrow> string \<Rightarrow> event list" where
  "strategy_step env jobID repoID req lang i strategy =
     (let maxRetries = 2
      in case retry_loop env i strategy req maxRetries 0 (None, None) of
           (evs, result, err) \<Rightarrow>
             [EvUpdateJob jobID strategy (int i) ''running''] @ evs @
             (case err of
                Some e \<Rightarrow>
                  [EvSave repoID strategy (failSummary strategy (maxRetries + 1) e) ''{}'' 0 [],
                   EvUpdateJob jobID strategy (int i + 1) ''running'']
              | None \<Rightarrow>
                  (case result of
                     None \<Rightarrow> [EvNilDeref]
                   | Some r \<Rightarrow>
                       (let summary = Summary r;
                            detailsJSON = json_Marshal env (Details r);
                            translated = (if lang \<noteq> [] \<and> lang \<noteq> ''en''
                                          then translateReport env i summary lang else [])
                        in [EvSave repoID strategy summary detailsJSON (Score r) translated,
                            EvUpdateJob jobID strategy (int i + 1) ''running'']))))"

fun strategy_loop ::
  "'req analysis_env \<Rightarrow> string \<Rightarrow> string \<Rightarrow> 'req \<Rightarrow> string \<Rightarrow> nat \<Rightarrow> string list \<Rightarrow> event list" where
  "strategy_loop env jobID repoID req lang i [] = []"
| "strategy_loop env jobID repoID req lang i (strategy # rest) =
     strategy_step env jobID repoID req lang i strategy @
     strategy_loop env jobID repoID req lang (Suc i) rest"

text \<open>
  The strategy loop of \<^verbatim>\<open>runAnalysisJob\<close> followed by the final update (lines 181 to 228).
  What the function does before the loop (it inserts a snapshot row and starts the RAG
  indexing goroutine, whose \<^verbatim>\<open>IndexChunks\<close> is modelled below) touches neither the tracker
  nor the analysis results and is left out; it reads \<^verbatim>\<open>jobID[:8]\<close>, which is defined for
  the UUIDs that \<^verbatim>\<open>RunAnalysis\<close> passes.
\<close>

definition runAnalysisJob_events ::
  "'req analysis_env \<Rightarrow> string \<Rightarrow> string \<Rightarrow> 'req \<Rightarrow> string list \<Rightarrow> string \<Rightarrow> event list" where
  "runAnalysisJob_events env jobID repoID req strategies lang =
     strategy_loop env jobID repoID req lang 0 strategies @
     [EvUpdateJob jobID [] (int (length strategies)) ''complete'']"

text \<open>
  The state the events act on: the tracker, the rows of \<^verbatim>\<open>analysis_results\<close>, the number
  of inserts issued so far and the clock (seconds; only the sleeps of the loop advance
  it, the time the calls take is not modelled).
\<close>

record world =
  tracker :: JobTracker
  analysis_results :: "AnalysisResultRow list"
  db_calls :: nat
  clock :: Time

text \<open>\<^verbatim>\<open>PostgresStore.SaveAnalysisResultFull\<close>: the error it returns and the new state.\<close>

definition stored_details :: "'req analysis_env \<Rightarrow> string \<Rightarrow> string" where
  "stored_details env details0 =
     (let details1 = (if \<not> json_Valid env details0 then json_Marshal_raw env details0 else details0)
      in if details1 = [] then ''{}'' else details1)"

definition SaveAnalysisResultFull ::
  "'req analysis_env \<Rightarrow> string \<Rightarrow> string \<Rightarrow> string \<Rightarrow> string \<Rightarrow> real \<Rightarrow> string \<Rightarrow> world \<Rightarrow>
   string option \<times> world" where
  "SaveAnalysisResultFull env repoID strategyName summaryText details0 scoreVal translated w =
     (let n = db_calls w
      in case db_Exec env n of
           Some err \<Rightarrow> (Some err, w\<lparr>db_calls := Suc n\<rparr>)
         | None \<Rightarrow>
             (None, w\<lparr>db_calls := Suc n,
                      analysis_results := analysis_results w @
                        [\<lparr>col_repo_id = repoID, col_strategy = strategyName,
                          col_summary = summaryText,
                          col_details = stored_details env details0, col_score = scoreVal,
                          col_summary_translated = translated\<rparr>]\<rparr>))"

text \<open>
  The effect of one event. The loop drops the error of a save (it is logged at most), and
  a panic ends the goroutine.
\<close>

fun perform :: "'req analysis_env \<Rightarrow> event \<Rightarrow> world \<Rightarrow> panic + world" where
  "perform env (EvUpdateJob jid strategyName progress status) w =
     (case UpdateJob jid strategyName progress status (clock w) (tracker w) of
        Inl p \<Rightarrow> Inl p
      | Inr t \<Rightarrow> Inr (w\<lparr>tracker := t\<rparr>))"
| "perform env (EvRunStrategy strategyName attempt) w = Inr w"
| "perform env (EvSleep secs) w = Inr (w\<lparr>clock := clock w + secs\<rparr>)"
| "perform env (EvSave repoID strategyName summaryText details0 scoreVal translated) w =
     Inr (snd (SaveAnalysisResultFull env repoID strategyName summaryText details0 scoreVal translated w))"
| "perform env EvNilDeref w = Inl NilPointerDereference"

fun exec :: "'req analysis_env \<Rightarrow> event list \<Rightarrow> world \<Rightarrow> panic + world" where
  "exec env [] w = Inr w"
| "exec env (e # es) w =
     (case perform env e w of
        Inl p \<Rightarrow> Inl p
      | Inr w' \<Rightarrow> exec env es w')"

text \<open>The states after each event, up to the first panic.\<close>

fun exec_trace :: "'req analysis_env \<Rightarrow> event list \<Rightarrow> world \<Rightarrow> world list" where
  "exec_trace env [] w = []"
| "exec_trace env (e # es) w =
     (case perform env e w of
        Inl p \<Rightarrow> []
      | Inr w' \<Rightarrow> w' # exec_trace env es w')"

definition runAnalysisJob ::
  "'req analysis_env \<Rightarrow> string \<Rightarrow> string \<Rightarrow> 'req \<Rightarrow> string list \<Rightarrow> string \<Rightarrow> world \<Rightarrow> panic + world" where
  "runAnalysisJob env jobID repoID req strategies lang w =
     exec env (runAnalysisJob_events env jobID repoID req strategies lang) w"

text \<open>
  \<^verbatim>\<open>RunAnalysis\<close> after the request was built: create the job with
  \<^verbatim>\<open>total = len(strategies)\<close>, then start the loop.
\<close>

definition job_created :: "string \<Rightarrow> string \<Rightarrow> string list \<Rightarrow> world \<Rightarrow> world" where
  "job_created jobID repoID strategies w =
     w\<lparr>tracker := CreateJob jobID repoID (int (length strategies)) (clock w) (tracker w)\<rparr>"

definition RunAnalysis ::
  "'req analysis_env \<Rightarrow> string \<Rightarrow> string \<Rightarrow> 'req \<Rightarrow> string list \<Rightarrow> string \<Rightarrow> world \<Rightarrow> panic + world" where
  "RunAnalysis env jobID repoID req strategies lang w =
     runAnalysisJob env jobID repoID req strategies lang (job_created jobID repoID strategies w)"

definition job_of :: "string \<Rightarrow> world \<Rightarrow> JobStatus option" where
  "job_of jid w = jobs (tracker w) jid"

subsection \<open>Auxiliary notions for the background loop\<close>

text \<open>
  An event that cannot panic by itself and, when it is an update, addresses the given job.
\<close>

fun benign :: "string \<Rightarrow> event \<Rightarrow> bool" where
  "benign jid (EvUpdateJob i s p st) = (i = jid)"
| "benign jid EvNilDeref = False"
| "benign jid _ = True"

text \<open>
  The pairs (progress, status) a job goes through under a list of events, starting from
  a given pair: an update overwrites both, every other event leaves them as they are.
\<close>

fun track :: "event list \<Rightarrow> int \<times> string \<Rightarrow> (int \<times> string) list" where
  "track [] v = []"
| "track (EvUpdateJob i s p st # es) v = (p, st) # track es (p, st)"
| "track (e # es) v = v # track es v"

text \<open>
  No subscriber channel of the job is closed.
\<close>

definition world_ok :: "string \<Rightarrow> world \<Rightarrow> bool" where
  "world_ok jid w = sendable (subs (tracker w) jid) (chans (tracker w))"

text \<open>
  The events of the retry loop: attempts and the sleeps between them.
\<close>

fun attempt_event :: "event \<Rightarrow> bool" where
  "attempt_event (EvRunStrategy s a) = True"
| "attempt_event (EvSleep n) = True"
| "attempt_event _ = False"

text \<open>
  The number of steps of a status sequence that lead from a non-terminal status to a
  terminal one.
\<close>

fun terminal_transitions :: "string list \<Rightarrow> nat" where
  "terminal_transitions (a # b # rest) =
     (if \<not> terminal a \<and> terminal b then 1 else 0) + terminal_transitions (b # rest)"
| "terminal_transitions _ = 0"

text \<open>
  The stored job (what \<^verbatim>\<open>GetJob\<close> would return) right after \<^verbatim>\<open>CreateJob\<close> and after each
  event of the background loop.
\<close>

definition job_history ::
  "'req analysis_env \<Rightarrow> string \<Rightarrow> string \<Rightarrow> 'req \<Rightarrow> string list \<Rightarrow> string \<Rightarrow> world \<Rightarrow>
   JobStatus option list" where
  "job_history env jobID repoID req strategies lang w =
     (let w0 = job_created jobID repoID strategies w
      in map (job_of jobID)
           (w0 # exec_trace env (runAnalysisJob_events env jobID repoID req strategies lang) w0))"

text \<open>
  The rows a list of events inserts when every insert succeeds.
\<close>

fun rows_of :: "'req analysis_env \<Rightarrow> event list \<Rightarrow> AnalysisResultRow list" where
  "rows_of env [] = []"
| "rows_of env (EvSave repoID strategyName summaryText details0 scoreVal translated # es) =
     \<lparr>col_repo_id = repoID, col_strategy = strategyName, col_summary = summaryText,
      col_details = stored_details env details0, col_score = scoreVal,
      col_summary_translated = translated\<rparr> # rows_of env es"
| "rows_of env (e # es) = rows_of env es"

text \<open>
  The \<^verbatim>\<open>UpdateJob\<close> calls of a list of events, in order.
\<close>

fun update_calls :: "event list \<Rightarrow> event list" where
  "update_calls [] = []"
| "update_calls (EvUpdateJob jid s p st # es) = EvUpdateJob jid s p st # update_calls es"
| "update_calls (e # es) = update_calls es"

text \<open>
  How many \<^verbatim>\<open>UpdateJob\<close> calls of a list of events carry the given job id, the given
  progress and the status \<open>running\<close>.
\<close>

definition running_marks :: "string \<Rightarrow> int \<Rightarrow> event list \<Rightarrow> nat" where
  "running_marks jid idx evs =
     length (filter (\<lambda>e. case e of EvUpdateJob j s p st \<Rightarrow> j = jid \<and> p = idx \<and> st = ''running''
                               | _ \<Rightarrow> False) evs)"

text \<open>
  How many \<^verbatim>\<open>RunStrategy\<close> calls a list of events holds.
\<close>

definition attempts_made :: "event list \<Rightarrow> nat" where
  "attempts_made evs =
     length (filter (\<lambda>e. case e of EvRunStrategy s a \<Rightarrow> True | _ \<Rightarrow> False) evs)"

text \<open>
  The events of an iteration before its progress advance \<^verbatim>\<open>UpdateJob(jobID, s, i+1, "running")\<close>.
\<close>

definition before_advance :: "string \<Rightarrow> string \<Rightarrow> nat \<Rightarrow> event list \<Rightarrow> event list" where
  "before_advance jobID s i evs =
     takeWhile (\<lambda>e. e \<noteq> EvUpdateJob jobID s (int i + 1) ''running'') evs"

text \<open>
  Sample data: a result, an environment whose strategies fail twice and then succeed,
  one whose strategies always fail, a world with one subscriber, the five strategy names
  of the repository, and a tracker with one full and one empty subscriber channel.
\<close>

definition demo_result :: AnalysisResult where
  "demo_result = \<lparr>Strategy = ''architecture'', Summary = ''Layered design. Score: 7/10'',
     Details = ''{}'', Score = 7, Suggestions = [], Diagrams = []\<rparr>"

definition flaky_env :: "unit analysis_env" where
  "flaky_env = \<lparr>engine_Run = (\<lambda>i attempt name req.
                     if attempt < 2 then Inl ''model timeout'' else Inr demo_result),
                 ai_Chat = (\<lambda>i sys user ctx. Inl ''unavailable''),
                 db_Exec = (\<lambda>n. None),
                 json_Valid = (\<lambda>d. True),
                 json_Marshal = (\<lambda>d. d),
                 json_Marshal_raw = (\<lambda>d. d)\<rparr>"

definition failing_env :: "unit analysis_env" where
  "failing_env = flaky_env\<lparr>engine_Run := (\<lambda>i attempt name req. Inl ''model timeout'')\<rparr>"

definition demo_world :: world where
  "demo_world = \<lparr>tracker = snd (Subscribe ''job-0001'' NewJobTracker), analysis_results = [],
                  db_calls = 0, clock = 100\<rparr>"

definition five_strategies :: "string list" where
  "five_strategies = [''architecture'', ''code_quality'', ''functionality'', ''devops'', ''security'']"

definition slow_tracker :: JobTracker where
  "slow_tracker =
     (let job = \<lparr>ID = ''job-0001'', RepoID = ''repo-1'', Status = ''running'', Progress = 0,
                  Total = 5, Current = [], Results = [], Error = [], StartedAt = 100,
                  CompletedAt = 0\<rparr>
      in \<lparr>jobs = [''job-0001'' \<mapsto> job],
          subs = (\<lambda>_. [])(''job-0001'' := [0, 1]),
          chans = [\<lparr>buf = replicate 10 job, cap = 10, closed = False\<rparr>,
                   \<lparr>buf = [], cap = 10, closed = False\<rparr>]\<rparr>)"

section \<open>Chunker (RAG service, \<^verbatim>\<open>chunkCode\<close>)\<close>

text \<open>
  A Go string is its bytes, a \<open>string\<close> here. \<^verbatim>\<open>strings.Split(content, "\n")\<close> cuts at
  every newline byte and always returns at least one piece; \<^verbatim>\<open>strings.Join(lines, "\n")\<close>
  puts the newlines back.
\<close>

fun Split :: "string \<Rightarrow> string list" where
  "Split [] = [[]]"
| "Split (c # cs) =
     (if c = CHR 0x0A then [] # Split cs
      else (case Split cs of
              [] \<Rightarrow> [[c]]
            | l # ls \<Rightarrow> (c # l) # ls))"

fun Join :: "string list \<Rightarrow> string" where
  "Join [] = []"
| "Join [l] = l"
| "Join (l # ls) = l @ CHR 0x0A # Join ls"

text \<open>
  \<^verbatim>\<open>strings.Fields\<close> splits around runs of white space as \<^verbatim>\<open>unicode.IsSpace\<close> defines it.
  \<open>space_width\<close> is the number of bytes of the white-space rune that starts the given
  bytes (0 when none does): the six ASCII spaces, and the UTF-8 encodings of U+0085,
  U+00A0, U+1680, U+2000 to U+200A, U+2028, U+2029, U+202F, U+205F and U+3000. The lead
  bytes of these encodings are never continuation bytes, so the match at byte level is the
  match on decoded runes.
\<close>

fun space_width :: "string \<Rightarrow> nat" where
  "space_width [] = 0"
| "space_width (c # cs) =
     (if c = CHR 0x09 \<or> c = CHR 0x0A \<or> c = CHR 0x0B \<or> c = CHR 0x0C \<or> c = CHR 0x0D \<or> c = CHR 0x20
      then 1
      else if c = CHR 0xC2 then
        (case cs of
           d # _ \<Rightarrow> if d = CHR 0x85 \<or> d = CHR 0xA0 then 2 else 0
         | [] \<Rightarrow> 0)
      else if c = CHR 0xE1 then
        (case cs of
           d # e # _ \<Rightarrow> if d = CHR 0x9A \<and> e = CHR 0x80 then 3 else 0
         | _ \<Rightarrow> 0)
      else if c = CHR 0xE2 then
        (case cs of
           d # e # _ \<Rightarrow>
             if d = CHR 0x80 \<and>
                ((128::nat) \<le> of_char e \<and> of_char e \<le> (138::nat)
                 \<or> e = CHR 0xA8 \<or> e = CHR 0xA9 \<or> e = CHR 0xAF)
                \<or> d = CHR 0x81 \<and> e = CHR 0x9F
             then 3 else 0
         | _ \<Rightarrow> 0)
      else if c = CHR 0xE3 then
        (case cs of
           d # e # _ \<Rightarrow> if d = CHR 0x80 \<and> e = CHR 0x80 then 3 else 0
         | _ \<Rightarrow> 0)
      else 0)"

text \<open>
  The scan of \<^verbatim>\<open>Fields\<close>: \<open>skip\<close> counts the remaining bytes of a white-space rune,
  \<open>w\<close> is the field being read.
\<close>

fun fields_loop :: "nat \<Rightarrow> string \<Rightarrow> string \<Rightarrow> string list" where
  "fields_loop skip w [] = (if w = [] then [] else [w])"
| "fields_loop skip w (c # cs) =
     (if skip > 0 then fields_loop (skip - 1) w cs
      else (case space_width (c # cs) of
              0 \<Rightarrow> fields_loop 0 (w @ [c]) cs
            | Suc k \<Rightarrow> (if w = [] then fields_loop k [] cs else w # fields_loop k [] cs)))"

definition Fields :: "string \<Rightarrow> string list" where
  "Fields s = fields_loop 0 [] s"

definition wordCount :: "string \<Rightarrow> int" where
  "wordCount line = int (length (Fields line))"

text \<open>
  The loop \<^verbatim>\<open>for _, line := range lines\<close> of \<^verbatim>\<open>chunkCode\<close> with its variables
  \<^verbatim>\<open>chunks\<close>, \<^verbatim>\<open>current\<close> and \<^verbatim>\<open>currentLen\<close>. Counts are \<open>int\<close>: a sum of word counts
  of a text held in memory cannot overflow 64 bits.
\<close>

fun chunk_loop ::
  "int \<Rightarrow> string list \<Rightarrow> string list \<Rightarrow> string list \<Rightarrow> int \<Rightarrow> string list \<times> string list" where
  "chunk_loop maxTokens [] chunks current currentLen = (chunks, current)"
| "chunk_loop maxTokens (line # lines) chunks current currentLen =
     (if currentLen + wordCount line > maxTokens \<and> length current > 0 then
        (let chunks' = chunks @ [Join current];
             overlap = (if length current < 3 then length current else 3);
             current' = drop (length current - overlap) current;
             currentLen' = sum_list (map wordCount current')
         in chunk_loop maxTokens lines chunks' (current' @ [line]) (currentLen' + wordCount line))
      else chunk_loop maxTokens lines chunks (current @ [line]) (currentLen + wordCount line))"

definition chunkCode :: "string \<Rightarrow> int \<Rightarrow> string list" where
  "chunkCode content maxTokens =
     (case chunk_loop maxTokens (Split content) [] [] 0 of
        (chunks, current) \<Rightarrow>
          if length current > 0 then chunks @ [Join current] else chunks)"

subsection \<open>Auxiliary notions for the chunker\<close>

text \<open>
  The same loop keeping every chunk as its list of lines (before \<^verbatim>\<open>strings.Join\<close>), used
  to reason about the lines of the chunks.
\<close>

fun lines_loop ::
  "int \<Rightarrow> string list \<Rightarrow> string list list \<Rightarrow> string list \<Rightarrow> int \<Rightarrow>
   string list list \<times> string list" where
  "lines_loop maxTokens [] cl current currentLen = (cl, current)"
| "lines_loop maxTokens (line # lines) cl current currentLen =
     (if currentLen + wordCount line > maxTokens \<and> length current > 0 then
        (let overlap = (if length current < 3 then length current else 3);
             current' = drop (length current - overlap) current
         in lines_loop maxTokens lines (cl @ [current]) (current' @ [line])
              (sum_list (map wordCount current') + wordCount line))
      else lines_loop maxTokens lines cl (current @ [line]) (currentLen + wordCount line))"

text \<open>
  Consecutive chunks (as line lists) overlap: each chunk after the first begins with the
  last \<open>min 3 n\<close> lines of its predecessor, \<open>n\<close> the predecessor's number of lines.
\<close>

fun overlaps :: "'a list list \<Rightarrow> bool" where
  "overlaps (p # c # rest) =
     (take (min 3 (length p)) c = drop (length p - min 3 (length p)) p \<and> overlaps (c # rest))"
| "overlaps [c] = True"
| "overlaps [] = True"

text \<open>
  The chunks concatenated without the overlaps: the first chunk whole, every later one
  without its first \<open>min 3 n\<close> lines.
\<close>

fun new_lines :: "'a list \<Rightarrow> 'a list list \<Rightarrow> 'a list" where
  "new_lines p [] = []"
| "new_lines p (c # rest) = drop (min 3 (length p)) c @ new_lines c rest"

fun without_overlaps :: "'a list list \<Rightarrow> 'a list" where
  "without_overlaps [] = []"
| "without_overlaps (c # rest) = c @ new_lines c rest"

text \<open>
  Sample input: six lines of two words each.
\<close>

definition sample_content :: string where
  "sample_content = ''a b'' @ [CHR 0x0A] @ ''c d'' @ [CHR 0x0A] @ ''e f'' @ [CHR 0x0A] @
     ''g h'' @ [CHR 0x0A] @ ''i j'' @ [CHR 0x0A] @ ''k l''"

section \<open>RAG service (\<^verbatim>\<open>Query\<close>, \<^verbatim>\<open>QueryStream\<close>, \<^verbatim>\<open>IndexChunks\<close>)\<close>

text \<open>
  The collaborators of the service: the AI provider (\<^verbatim>\<open>Embed\<close>, \<^verbatim>\<open>EmbedBatch\<close>, \<^verbatim>\<open>Chat\<close>,
  \<^verbatim>\<open>ChatStream\<close>; \<open>Inl\<close> is the error text, a stream is the list of its fragments) and
  the database behind the vector store. \<open>EmbedBatch\<close> and \<open>tx_error\<close> take the path of the
  file being indexed as a tag, so that the calls made for two files may fare differently
  whatever their arguments: \<open>EmbedBatch f texts\<close> is the outcome of the one
  \<^verbatim>\<open>EmbedBatch\<close> call made for file \<open>f\<close>, \<open>tx_error f\<close> the error of the one insert
  transaction for \<open>f\<close> (\<open>None\<close> when it commits). \<open>SearchSimilar\<close> is the outcome of
  \<^verbatim>\<open>VectorStore.SearchSimilar\<close> (an SQL query ordered by cosine distance), \<open>fmt_2f\<close> the
  \<^verbatim>\<open>%.2f\<close> of \<^verbatim>\<open>fmt.Sprintf\<close>.
\<close>

record rag_env =
  Embed :: "string \<Rightarrow> string + real list"
  EmbedBatch :: "string \<Rightarrow> string list \<Rightarrow> string + real list list"
  Chat :: "string \<Rightarrow> string \<Rightarrow> string list \<Rightarrow> string + string"
  ChatStream :: "string \<Rightarrow> string \<Rightarrow> string list \<Rightarrow> string + string list"
  SearchSimilar :: "string \<Rightarrow> real list \<Rightarrow> int \<Rightarrow> string + SimilarChunk list"
  tx_error :: "string \<Rightarrow> string option"
  fmt_2f :: "real \<Rightarrow> string"

text \<open>The calls a query makes on its collaborators, in order.\<close>

datatype rag_call =
    CallEmbed string
  | CallSearchSimilar string "real list" int
  | CallChat string string "string list"
  | CallChatStream string string "string list"

definition query_systemPrompt :: string where
  "query_systemPrompt =
     ''You are CodeLens AI, an expert code analyst. Answer questions about the codebase using the provided code context. '' @
     [CHR 0x0A] @
     ''Be precise, reference specific files and functions, and provide code examples when relevant.'' @
     [CHR 0x0A] @
     ''Always cite the source file when referencing code.''"

definition stream_systemPrompt :: string where
  "stream_systemPrompt =
     ''You are CodeLens AI, an expert code analyst. Answer questions about the codebase using the provided code context.'' @
     [CHR 0x0A] @
     ''Be precise, reference specific files and functions.''"

text \<open>
  \<^verbatim>\<open>RAGService.Query\<close>: the calls made, then the three results (answer, sources, error;
  \<open>None\<close> is the nil error, \<open>[]\<close> the nil slice).
\<close>

definition Query ::
  "rag_env \<Rightarrow> string \<Rightarrow> string \<Rightarrow> rag_call list \<times> string \<times> SimilarChunk list \<times> string option" where
  "Query env repoID question =
     (case Embed env question of
        Inl err \<Rightarrow> ([CallEmbed question], [], [], Some (''embed query: '' @ err))
      | Inr queryVector \<Rightarrow>
          (case SearchSimilar env repoID queryVector 10 of
             Inl err \<Rightarrow>
               ([CallEmbed question, CallSearchSimilar repoID queryVector 10], [], [],
                Some (''search similar: '' @ err))
           | Inr chunks \<Rightarrow>
               if length chunks = 0 then
                 ([CallEmbed question, CallSearchSimilar repoID queryVector 10],
                  ''No relevant code found for this query.'', [], None)
               else
                 (let contextParts =
                        map (\<lambda>chunk. ''// File: '' @ FilePath chunk @ '' (similarity: '' @
                                      fmt_2f env (Similarity chunk) @ '')'' @ [CHR 0x0A] @
                                      Content chunk) chunks;
                      calls = [CallEmbed question, CallSearchSimilar repoID queryVector 10,
                               CallChat query_systemPrompt question contextParts]
                  in case Chat env query_systemPrompt question contextParts of
                       Inl err \<Rightarrow> (calls, [], [], Some (''chat: '' @ err))
                     | Inr response \<Rightarrow> (calls, response, chunks, None))))"

text \<open>\<^verbatim>\<open>RAGService.QueryStream\<close>: the calls made, then (stream, sources, error).\<close>

definition QueryStream ::
  "rag_env \<Rightarrow> string \<Rightarrow> string \<Rightarrow>
   rag_call list \<times> string list \<times> SimilarChunk list \<times> string option" where
  "QueryStream env repoID question =
     (case Embed env question of
        Inl err \<Rightarrow> ([CallEmbed question], [], [], Some (''embed query: '' @ err))
      | Inr queryVector \<Rightarrow>
          (case SearchSimilar env repoID queryVector 10 of
             Inl err \<Rightarrow>
               ([CallEmbed question, CallSearchSimilar repoID queryVector 10], [], [],
                Some (''search similar: '' @ err))
           | Inr chunks \<Rightarrow>
               (let contextParts =
                      map (\<lambda>chunk. ''// File: '' @ FilePath chunk @ [CHR 0x0A] @ Content chunk)
                          chunks;
                    calls = [CallEmbed question, CallSearchSimilar repoID queryVector 10,
                             CallChatStream stream_systemPrompt question contextParts]
                in case ChatStream env stream_systemPrompt question contextParts of
                     Inl err \<Rightarrow> (calls, [], [], Some (''chat stream: '' @ err))
                   | Inr stream \<Rightarrow> (calls, stream, chunks, None))))"

text \<open>
  \<^verbatim>\<open>detectLanguage\<close>. Only a suffix of ASCII letters is tested after \<^verbatim>\<open>strings.ToLower\<close>,
  and lower-casing a rune outside ASCII never yields one of these letters, so lower-casing
  the ASCII capitals gives the same answer.
\<close>

definition ToLower :: "string \<Rightarrow> string" where
  "ToLower s =
     map (\<lambda>c. case map_of (zip ''ABCDEFGHIJKLMNOPQRSTUVWXYZ'' ''abcdefghijklmnopqrstuvwxyz'') c of
                None \<Rightarrow> c
              | Some l \<Rightarrow> l) s"

definition HasSuffix :: "string \<Rightarrow> string \<Rightarrow> bool" where
  "HasSuffix s suffix \<longleftrightarrow>
     length suffix \<le> length s \<and> drop (length s - length suffix) s = suffix"

definition detectLanguage :: "string \<Rightarrow> string" where
  "detectLanguage filePath =
     (let ext = ToLower filePath
      in if HasSuffix ext ''.go'' then ''go''
         else if HasSuffix ext ''.ts'' \<or> HasSuffix ext ''.tsx'' then ''typescript''
         else if HasSuffix ext ''.js'' \<or> HasSuffix ext ''.jsx'' then ''javascript''
         else if HasSuffix ext ''.py'' then ''python''
         else if HasSuffix ext ''.rs'' then ''rust''
         else if HasSuffix ext ''.java'' then ''java''
         else if HasSuffix ext ''.rb'' then ''ruby''
         else if HasSuffix ext ''.sql'' then ''sql''
         else if HasSuffix ext ''.yaml'' \<or> HasSuffix ext ''.yml'' then ''yaml''
         else if HasSuffix ext ''.json'' then ''json''
         else if HasSuffix ext ''.md'' then ''markdown''
         else ''unknown'')"

text \<open>
  The loop \<^verbatim>\<open>for i, chunk := range chunks\<close> of \<^verbatim>\<open>IndexChunks\<close> that fills
  \<^verbatim>\<open>embeddings[i]\<close>; reading \<^verbatim>\<open>vectors[i]\<close> beyond the vectors returned panics. The id and
  the creation time of a row are left at their zero values (the database sets them).
\<close>

fun build_embeddings ::
  "string \<Rightarrow> string \<Rightarrow> string \<Rightarrow> nat \<Rightarrow> string list \<Rightarrow> real list list \<Rightarrow> panic + Embedding list" where
  "build_embeddings snapshotID repoID filePath i [] vectors = Inr []"
| "build_embeddings snapshotID repoID filePath i (chunk # rest) vectors =
     (if i < length vectors then
        (case build_embeddings snapshotID repoID filePath (Suc i) rest vectors of
           Inl p \<Rightarrow> Inl p
         | Inr es \<Rightarrow>
             Inr (\<lparr>Embedding.ID = [], SnapshotID = snapshotID, Embedding.RepoID = repoID,
                   FilePath = filePath, ChunkIndex = int i, Content = chunk,
                   Language = detectLanguage filePath, Vector = vectors ! i,
                   CreatedAt = 0\<rparr> # es))
      else Inl IndexOutOfRange)"

text \<open>
  \<^verbatim>\<open>VectorStore.StoreBatchEmbeddings\<close> on the rows of the \<^verbatim>\<open>embeddings\<close> table: nothing to
  do for an empty batch; otherwise one transaction, which inserts every row or, on any
  error, none.
\<close>

definition StoreBatchEmbeddings ::
  "rag_env \<Rightarrow> string \<Rightarrow> Embedding list \<Rightarrow> Embedding list \<Rightarrow> string option \<times> Embedding list" where
  "StoreBatchEmbeddings env tag embeddings table =
     (if length embeddings = 0 then (None, table)
      else (case tx_error env tag of
              Some err \<Rightarrow> (Some err, table)
            | None \<Rightarrow> (None, table @ embeddings)))"

text \<open>
  The loop \<^verbatim>\<open>for filePath, content := range files\<close>; the list is the map in the order the
  iteration visits it.
\<close>

fun index_files ::
  "rag_env \<Rightarrow> string \<Rightarrow> string \<Rightarrow> (string \<times> string) list \<Rightarrow> Embedding list \<Rightarrow>
   panic + Embedding list" where
  "index_files env repoID snapshotID [] table = Inr table"
| "index_files env repoID snapshotID ((filePath, content) # rest) table =
     (let chunks = chunkCode content 512
      in if length chunks = 0 then index_files env repoID snapshotID rest table
         else (case EmbedBatch env filePath chunks of
                 Inl err \<Rightarrow> index_files env repoID snapshotID rest table
               | Inr vectors \<Rightarrow>
                   (case build_embeddings snapshotID repoID filePath 0 chunks vectors of
                      Inl p \<Rightarrow> Inl p
                    | Inr embeddings \<Rightarrow>
                        index_files env repoID snapshotID rest
                          (snd (StoreBatchEmbeddings env filePath embeddings table)))))"

text \<open>\<^verbatim>\<open>IndexChunks\<close> returns the nil error once the loop is through.\<close>

definition IndexChunks ::
  "rag_env \<Rightarrow> string \<Rightarrow> string \<Rightarrow> (string \<times> string) list \<Rightarrow> Embedding list \<Rightarrow>
   panic + (string option \<times> Embedding list)" where
  "IndexChunks env repoID snapshotID files table =
     (case index_files env repoID snapshotID files table of
        Inl p \<Rightarrow> Inl p
      | Inr table' \<Rightarrow> Inr (None, table'))"

subsection \<open>Auxiliary notions for the RAG service\<close>

text \<open>
  The rows \<^verbatim>\<open>IndexChunks\<close> builds for a file from the vectors the provider returned:
  one per chunk, in chunk order.
\<close>

definition file_rows :: "string \<Rightarrow> string \<Rightarrow> string \<Rightarrow> string list \<Rightarrow> real list list \<Rightarrow> Embedding list" where
  "file_rows snapshotID repoID filePath chunks vectors =
     map (\<lambda>(i, chunk). \<lparr>Embedding.ID = [], SnapshotID = snapshotID, Embedding.RepoID = repoID,
                          FilePath = filePath, ChunkIndex = int i, Content = chunk,
                          Language = detectLanguage filePath, Vector = vectors ! i,
                          CreatedAt = 0\<rparr>)
         (enumerate 0 chunks)"

text \<open>
  Sample data: a provider and store for a repository with no indexed chunk, the same
  with the embedding call failing for the file \<open>b.py\<close>, and three small files.
\<close>

definition empty_index_env :: rag_env where
  "empty_index_env =
     \<lparr>Embed = (\<lambda>text. Inr [1, 0]),
      EmbedBatch = (\<lambda>tag texts. Inr (map (\<lambda>t. [1, 0]) texts)),
      Chat = (\<lambda>sys user ctx. Inr ''A chat answer.''),
      ChatStream = (\<lambda>sys user ctx. Inr [''A streamed'', '' answer.'']),
      SearchSimilar = (\<lambda>repoID v limit. Inr []),
      tx_error = (\<lambda>tag. None),
      fmt_2f = (\<lambda>x. ''0.00'')\<rparr>"

definition flaky_embed_env :: rag_env where
  "flaky_embed_env =
     empty_index_env\<lparr>EmbedBatch := (\<lambda>tag texts.
        if tag = ''b.py'' then Inl ''ollama API error (500)''
        else Inr (map (\<lambda>t. [1, 0]) texts))\<rparr>"

definition three_files :: "(string \<times> string) list" where
  "three_files = [(''a.go'', ''package a''), (''b.py'', ''import b''), (''c.md'', ''# c'')]"

section \<open>Properties of the Job Tracker\<close>

lemma try_send_open:
  "ch < length h \<longrightarrow> \<not> closed (h ! ch) \<Longrightarrow>
   \<exists>h'. try_send ch v h = Inr h' \<and> length h' = length h \<and> map closed h' = map closed h \<and> map cap h' = map cap h"
  by (auto simp: try_send_def Let_def map_update list_update_same_conv)

lemma sendable_cong: "map closed h' = map closed h \<Longrightarrow> sendable refs h' = sendable refs h"
proof -
  assume a: "map closed h' = map closed h"
  then have l: "length h' = length h" using map_eq_imp_length_eq by blast
  have "\<And>k. k < length h \<Longrightarrow> closed (h' ! k) = closed (h ! k)"
    using a l by (metis nth_map)
  then show ?thesis unfolding sendable_def list_all_iff using l by auto
qed

lemma notify_total:
  "sendable refs h \<Longrightarrow>
   \<exists>h'. notify refs v h = Inr h' \<and> length h' = length h \<and> map closed h' = map closed h \<and> map cap h' = map cap h"
proof (induction refs arbitrary: h)
  case Nil
  then show ?case by simp
next
  case (Cons ch rest)
  from Cons.prems have o: "ch < length h \<longrightarrow> \<not> closed (h ! ch)" and r: "sendable rest h"
    by (simp_all add: sendable_def)
  from try_send_open[OF o, of v] obtain h1 where
    h1: "try_send ch v h = Inr h1" "length h1 = length h" "map closed h1 = map closed h" "map cap h1 = map cap h"
    by blast
  from r h1(3) have "sendable rest h1" using sendable_cong by blast
  from Cons.IH[OF this] h1 show ?case by auto
qed

lemma UpdateJob_applies:
  assumes "jobs t jid = Some job" "sendable (subs t jid) (chans t)"
  shows "\<exists>t'. UpdateJob jid strategy progress status now t = Inr t'
            \<and> jobs t' = (jobs t)(jid \<mapsto> apply_update strategy progress status now job)
            \<and> subs t' = subs t
            \<and> length (chans t') = length (chans t)
            \<and> map closed (chans t') = map closed (chans t)
            \<and> map cap (chans t') = map cap (chans t)"
proof -
  from notify_total[OF assms(2)] obtain h' where
    "notify (subs t jid) (apply_update strategy progress status now job) (chans t) = Inr h'"
    "length h' = length (chans t)" "map closed h' = map closed (chans t)" "map cap h' = map cap (chans t)"
    by blast
  then show ?thesis using assms(1) by (simp add: UpdateJob_def UpdateJob_locked_def Let_def)
qed

lemma try_send_deliver:
  "ch < length h \<Longrightarrow> \<not> closed (h ! ch) \<Longrightarrow> try_send ch v h = Inr (h[ch := deliver v (h ! ch)])"
  by (simp add: try_send_def deliver_def Let_def)

lemma try_send_nil: "\<not> ch < length h \<Longrightarrow> try_send ch v h = Inr h"
  by (simp add: try_send_def)

lemma closed_deliver: "closed (deliver v c) = closed c"
  by (simp add: deliver_def)

lemma notify_effect:
  "distinct refs \<Longrightarrow> sendable refs h \<Longrightarrow>
   \<exists>h'. notify refs v h = Inr h' \<and> length h' = length h \<and>
     (\<forall>k < length h. h' ! k = (if k \<in> set refs then deliver v (h ! k) else h ! k))"
proof (induction refs arbitrary: h)
  case Nil
  then show ?case by simp
next
  case (Cons ch rest)
  from Cons.prems have d: "distinct rest" "ch \<notin> set rest"
    and o: "ch < length h \<longrightarrow> \<not> closed (h ! ch)" and r: "sendable rest h"
    by (simp_all add: sendable_def)
  show ?case
  proof (cases "ch < length h")
    case True
    let ?h1 = "h[ch := deliver v (h ! ch)]"
    have s: "try_send ch v h = Inr ?h1" using True o by (simp add: try_send_deliver)
    have "map closed ?h1 = map closed h"
      by (simp add: map_update closed_deliver list_update_same_conv True)
    then have "sendable rest ?h1" using r sendable_cong by blast
    from Cons.IH[OF d(1) this] obtain h' where
      h': "notify rest v ?h1 = Inr h'" "length h' = length ?h1"
          "\<forall>k < length ?h1. h' ! k = (if k \<in> set rest then deliver v (?h1 ! k) else ?h1 ! k)"
      by blast
    have "\<forall>k < length h. h' ! k = (if k \<in> set (ch # rest) then deliver v (h ! k) else h ! k)"
      using h'(3) d(2) True by (auto simp: nth_list_update)
    then show ?thesis using s h'(1,2) by simp
  next
    case False
    then have s: "try_send ch v h = Inr h" by (simp add: try_send_nil)
    from Cons.IH[OF d(1) r] obtain h' where
      h': "notify rest v h = Inr h'" "length h' = length h"
          "\<forall>k < length h. h' ! k = (if k \<in> set rest then deliver v (h ! k) else h ! k)"
      by blast
    have "\<forall>k < length h. h' ! k = (if k \<in> set (ch # rest) then deliver v (h ! k) else h ! k)"
      using h'(3) False by auto
    then show ?thesis using s h'(1,2) by simp
  qed
qed

lemma apply_update_fields:
  "Progress (apply_update s p st now j) = p"
  "Current (apply_update s p st now j) = s"
  "Status (apply_update s p st now j) = st"
  "ID (apply_update s p st now j) = ID j"
  "RepoID (apply_update s p st now j) = RepoID j"
  "Total (apply_update s p st now j) = Total j"
  "Error (apply_update s p st now j) = Error j"
  "StartedAt (apply_update s p st now j) = StartedAt j"
  "Results (apply_update s p st now j) = (if s \<noteq> [] \<and> st \<noteq> ''error'' then Results j @ [s] else Results j)"
  "CompletedAt (apply_update s p st now j) = (if st = ''complete'' \<or> st = ''error'' then now else CompletedAt j)"
  by (simp_all add: apply_update_def Let_def)

text \<open>
  The hypotheses used below on the subscriber channels of a job (none closed, each at
  most once in the list) hold in every tracker the operations can produce.
\<close>

lemma notify_frame:
  "notify refs v h = Inr h' \<Longrightarrow> length h' = length h \<and> map closed h' = map closed h"
proof (induction refs arbitrary: h)
  case Nil
  then show ?case by simp
next
  case (Cons ch rest)
  from Cons.prems obtain h1 where s: "try_send ch v h = Inr h1" and n: "notify rest v h1 = Inr h'"
    by (auto split: sum.splits)
  from s have "length h1 = length h \<and> map closed h1 = map closed h"
    by (auto simp: try_send_def Let_def map_update list_update_same_conv split: if_splits)
  with Cons.IH[OF n] show ?case by simp
qed

lemma UpdateJob_frame:
  assumes "UpdateJob jid strategy progress status now t = Inr t'"
  shows "subs t' = subs t \<and> length (chans t') = length (chans t)
       \<and> map closed (chans t') = map closed (chans t)"
proof (cases "jobs t jid")
  case None
  with assms show ?thesis by (simp add: UpdateJob_def UpdateJob_locked_def)
next
  case (Some job)
  with assms obtain h where
    n: "notify (subs t jid) (apply_update strategy progress status now job) (chans t) = Inr h"
    and t': "t' = t\<lparr>jobs := (jobs t)(jid \<mapsto> apply_update strategy progress status now job),
                     chans := h\<rparr>"
    by (auto simp: UpdateJob_def UpdateJob_locked_def Let_def split: sum.splits)
  from notify_frame[OF n] t' show ?thesis by simp
qed

lemma closed_nth_map:
  "map closed h' = map closed h \<Longrightarrow> k < length h \<Longrightarrow> closed (h' ! k) = closed (h ! k)"
  by (metis length_map nth_map)

lemma reachable_invariant:
  "reachable t \<Longrightarrow>
     (\<forall>jid. \<forall>ch \<in> set (subs t jid). ch < length (chans t) \<and> \<not> closed (chans t ! ch))
   \<and> (\<forall>jid. distinct (subs t jid))
   \<and> (\<forall>jid jid'. jid \<noteq> jid' \<longrightarrow> set (subs t jid) \<inter> set (subs t jid') = {})"
proof (induction rule: reachable.induct)
  case reach_new
  then show ?case by (simp add: NewJobTracker_def)
next
  case (reach_create t jid repoID total_steps now)
  then show ?case by (simp add: CreateJob_def)
next
  case (reach_update t jid strategy progress status now t')
  from UpdateJob_frame[OF reach_update.hyps(2)] have
    f: "subs t' = subs t" "length (chans t') = length (chans t)"
       "map closed (chans t') = map closed (chans t)" by auto
  have "\<forall>jid. \<forall>ch \<in> set (subs t' jid). ch < length (chans t') \<and> \<not> closed (chans t' ! ch)"
    using reach_update.IH f closed_nth_map[OF f(3)] by auto
  then show ?case using reach_update.IH f(1) by simp
next
  case (reach_subscribe t jid)
  let ?n = "length (chans t)"
  have fresh: "\<forall>j. ?n \<notin> set (subs t j)" using reach_subscribe.IH by auto
  have a: "\<forall>j. \<forall>ch \<in> set (subs (snd (Subscribe jid t)) j).
             ch < length (chans (snd (Subscribe jid t)))
             \<and> \<not> closed (chans (snd (Subscribe jid t)) ! ch)"
  proof (intro allI ballI)
    fix j c assume "c \<in> set (subs (snd (Subscribe jid t)) j)"
    then have "c = ?n \<or> c \<in> set (subs t j)"
      by (auto simp: Subscribe_def Let_def split: if_splits)
    then show "c < length (chans (snd (Subscribe jid t)))
             \<and> \<not> closed (chans (snd (Subscribe jid t)) ! c)"
    proof
      assume "c = ?n"
      then show ?thesis by (simp add: Subscribe_def Let_def)
    next
      assume "c \<in> set (subs t j)"
      with reach_subscribe.IH have "c < ?n" "\<not> closed (chans t ! c)" by auto
      then show ?thesis by (simp add: Subscribe_def Let_def nth_append)
    qed
  qed
  have b: "\<forall>j. distinct (subs (snd (Subscribe jid t)) j)"
    using reach_subscribe.IH fresh by (auto simp: Subscribe_def Let_def)
  have c: "\<forall>j j'. j \<noteq> j' \<longrightarrow>
             set (subs (snd (Subscribe jid t)) j) \<inter> set (subs (snd (Subscribe jid t)) j') = {}"
    using reach_subscribe.IH fresh by (auto simp: Subscribe_def Let_def)
  show ?case using a b c by blast
next
  case (reach_receive t ch)
  have s: "subs (snd (receive ch t)) = subs t"
    by (simp add: receive_def split: list.splits)
  have l: "length (chans (snd (receive ch t))) = length (chans t)"
    by (simp add: receive_def split: list.splits)
  have m: "map closed (chans (snd (receive ch t))) = map closed (chans t)"
    by (simp add: receive_def map_update list_update_same_conv split: list.splits)
  have "\<forall>jid. \<forall>c \<in> set (subs (snd (receive ch t)) jid).
          c < length (chans (snd (receive ch t))) \<and> \<not> closed (chans (snd (receive ch t)) ! c)"
    using reach_receive.IH s l closed_nth_map[OF m] by auto
  then show ?case using reach_receive.IH s by simp
next
  case (reach_unsubscribe t ch jid t')
  from reach_unsubscribe.IH have
    inv: "\<forall>j. \<forall>c \<in> set (subs t j). c < length (chans t) \<and> \<not> closed (chans t ! c)"
         "\<forall>j. distinct (subs t j)"
         "\<forall>j j'. j \<noteq> j' \<longrightarrow> set (subs t j) \<inter> set (subs t j') = {}"
    by auto
  from inv(1) reach_unsubscribe.hyps(2) have ch: "ch < length (chans t)" "\<not> closed (chans t ! ch)"
    by auto
  from reach_unsubscribe.hyps(2,3) ch have
    t': "t' = t\<lparr>subs := (subs t)(jid := remove1 ch (subs t jid)),
                  chans := (chans t)[ch := (chans t ! ch)\<lparr>closed := True\<rparr>]\<rparr>"
    by (simp add: Unsubscribe_def Let_def)
  have gone: "\<forall>j. ch \<notin> set (subs t' j)"
  proof
    fix j show "ch \<notin> set (subs t' j)"
    proof (cases "j = jid")
      case True
      then show ?thesis using inv(2) by (simp add: t')
    next
      case False
      with inv(3) reach_unsubscribe.hyps(2) show ?thesis by (auto simp: t')
    qed
  qed
  have sub: "\<forall>j. set (subs t' j) \<subseteq> set (subs t j)"
    using set_remove1_subset[of ch "subs t jid"] by (auto simp: t')
  have a: "\<forall>j. \<forall>c \<in> set (subs t' j). c < length (chans t') \<and> \<not> closed (chans t' ! c)"
  proof (intro allI ballI)
    fix j c assume c: "c \<in> set (subs t' j)"
    then have "c \<noteq> ch" using gone by auto
    moreover have "c \<in> set (subs t j)" using c sub by auto
    ultimately show "c < length (chans t') \<and> \<not> closed (chans t' ! c)"
      using inv(1) by (auto simp: t')
  qed
  have b: "\<forall>j. distinct (subs t' j)" using inv(2) by (simp add: t')
  have c: "\<forall>j j'. j \<noteq> j' \<longrightarrow> set (subs t' j) \<inter> set (subs t' j') = {}"
    using inv(3) sub by blast
  show ?case using a b c by blast
qed

lemma reachable_sendable:
  "reachable t \<Longrightarrow> sendable (subs t jid) (chans t) \<and> distinct (subs t jid)"
  using reachable_invariant[of t] by (auto simp: sendable_def list_all_iff)

text \<open>
  What subscribers do (subscribe, take a message, unsubscribe) never writes the job map.
\<close>

lemma subscriber_operations_keep_jobs:
  "jobs (snd (Subscribe jid t)) = jobs t"
  "jobs (snd (receive ch t)) = jobs t"
  "Unsubscribe jid ch t = Inr t' \<Longrightarrow> jobs t' = jobs t"
  by (auto simp: Subscribe_def receive_def Unsubscribe_def Let_def split: list.splits if_splits)

text \<open>
  Claim C10. For a job id that is not in the tracker's job map, UpdateJob returns at
  once: the tracker it leaves behind is the tracker it was given, so no job is created
  or modified and no channel of any subscriber list receives a message.
\<close>

theorem UpdateJob_unknown_id_noop:
  "jobs t jid = None \<Longrightarrow> UpdateJob jid strategy progress status now t = Inr t"
  by (simp add: UpdateJob_def UpdateJob_locked_def)

theorem UpdateJob_unknown_id_noop_witness:
  "jobs (snd (Subscribe ''ghost'' NewJobTracker)) ''ghost'' = None \<and>
   UpdateJob ''ghost'' ''security'' 1 ''running'' 7 (snd (Subscribe ''ghost'' NewJobTracker))
     = Inr (snd (Subscribe ''ghost'' NewJobTracker))"
proof -
  have h: "jobs (snd (Subscribe ''ghost'' NewJobTracker)) ''ghost'' = None"
    by (simp add: Subscribe_def NewJobTracker_def Let_def)
  show ?thesis using h UpdateJob_unknown_id_noop [OF h] by simp
qed

text \<open>
  Claim C1 says that an update of a job whose status is terminal leaves the stored job
  unchanged. UpdateJob has no such guard: on the tracker holding the completed job
  \<open>job-0001\<close>, a further update with status \<open>running\<close> is applied and the stored job
  changes.
\<close>

theorem terminal_update_counterexample:
  "map_option Status (jobs finished_tracker ''job-0001'') = Some ''complete'' \<and>
   map_option Status
     (job_after (UpdateJob ''job-0001'' ''security'' 0 ''running'' 9 finished_tracker) ''job-0001'')
     = Some ''running'' \<and>
   job_after (UpdateJob ''job-0001'' ''security'' 0 ''running'' 9 finished_tracker) ''job-0001''
     \<noteq> jobs finished_tracker ''job-0001''"
  by (simp add: finished_tracker_def UpdateJob_def UpdateJob_locked_def CreateJob_def NewJobTracker_def
      apply_update_def job_after_def Let_def)

text \<open>
  Claim C1 as amended. For a job whose status is terminal (no subscriber channel of the
  job being closed), a further UpdateJob for its id is applied like any other update: progress, current strategy and status are
  overwritten with the arguments, a non-empty strategy is appended to the completed
  list unless the new status is error, and the completion time is stamped again when
  the new status is terminal. Only the id, repository id, total, error text and start
  time of the job are left as they were, and no other job is touched.
\<close>

theorem UpdateJob_overwrites_terminal_job:
  assumes "jobs t jid = Some job" and "terminal (Status job)"
    and "sendable (subs t jid) (chans t)"
  shows "\<exists>t' job'. UpdateJob jid strategy progress status now t = Inr t'
           \<and> jobs t' jid = Some job'
           \<and> Progress job' = progress \<and> Current job' = strategy \<and> Status job' = status
           \<and> Results job' = (if strategy \<noteq> [] \<and> status \<noteq> ''error''
                               then Results job @ [strategy] else Results job)
           \<and> CompletedAt job' = (if terminal status then now else CompletedAt job)
           \<and> ID job' = ID job \<and> RepoID job' = RepoID job \<and> Total job' = Total job
           \<and> Error job' = Error job \<and> StartedAt job' = StartedAt job
           \<and> (\<forall>other. other \<noteq> jid \<longrightarrow> jobs t' other = jobs t other)"
proof -
  from UpdateJob_applies[OF assms(1,3)] obtain t' where
    t': "UpdateJob jid strategy progress status now t = Inr t'"
        "jobs t' = (jobs t)(jid \<mapsto> apply_update strategy progress status now job)"
    by blast
  show ?thesis
    using t' by (simp add: apply_update_fields terminal_def)
qed

theorem UpdateJob_overwrites_terminal_job_witness:
  "jobs finished_tracker ''job-0001'' \<noteq> None \<and>
   terminal (Status (the (jobs finished_tracker ''job-0001''))) \<and>
   sendable (subs finished_tracker ''job-0001'') (chans finished_tracker) \<and>
   (\<exists>t' job'. UpdateJob ''job-0001'' ''security'' 0 ''running'' 9 finished_tracker = Inr t'
      \<and> jobs t' ''job-0001'' = Some job' \<and> Progress job' = 0 \<and> Status job' = ''running''
      \<and> Results job' = [''security''] \<and> CompletedAt job' = 5 \<and> Total job' = 1)"
proof -
  let ?j = "the (jobs finished_tracker ''job-0001'')"
  have a: "jobs finished_tracker ''job-0001'' = Some ?j"
    by (simp add: finished_tracker_def UpdateJob_def UpdateJob_locked_def CreateJob_def NewJobTracker_def Let_def)
  have b: "terminal (Status ?j)"
    by (simp add: finished_tracker_def UpdateJob_def UpdateJob_locked_def CreateJob_def NewJobTracker_def
        apply_update_def terminal_def Let_def)
  have c: "sendable (subs finished_tracker ''job-0001'') (chans finished_tracker)"
    by (simp add: finished_tracker_def UpdateJob_def UpdateJob_locked_def CreateJob_def NewJobTracker_def
        sendable_def Let_def)
  have d: "Results ?j = []" "CompletedAt ?j = 5" "Total ?j = 1"
    by (simp_all add: finished_tracker_def UpdateJob_def UpdateJob_locked_def CreateJob_def NewJobTracker_def
        apply_update_def Let_def)
  from UpdateJob_overwrites_terminal_job [OF a b c, of "''security''" 0 "''running''" 9]
  show ?thesis using a b c d by (auto simp: terminal_def)
qed

section \<open>Properties of the background loop\<close>

lemma sendable_preserved:
  "map closed h' = map closed h \<Longrightarrow> sendable refs h \<Longrightarrow> sendable refs h'"
  using sendable_cong by blast

lemma perform_benign:
  assumes "job_of jid w = Some j" "world_ok jid w" "benign jid e"
  shows "\<exists>w' j'. perform env e w = Inr w' \<and> job_of jid w' = Some j' \<and> world_ok jid w'
           \<and> Total j' = Total j
           \<and> [(Progress j', Status j')] = track [e] (Progress j, Status j)"
proof (cases e)
  case (EvUpdateJob i s p st)
  with assms(3) have i: "i = jid" by simp
  from assms(1,2) have a: "jobs (tracker w) jid = Some j"
    "sendable (subs (tracker w) jid) (chans (tracker w))"
    by (simp_all add: job_of_def world_ok_def)
  from UpdateJob_applies[OF a, of s p st "clock w"] obtain t' where
    t': "UpdateJob jid s p st (clock w) (tracker w) = Inr t'"
        "jobs t' = (jobs (tracker w))(jid \<mapsto> apply_update s p st (clock w) j)"
        "subs t' = subs (tracker w)"
        "map closed (chans t') = map closed (chans (tracker w))"
    by blast
  have "sendable (subs t' jid) (chans t')"
    using t'(3,4) a(2) sendable_preserved by simp
  then show ?thesis using EvUpdateJob i t'
    by (simp add: job_of_def world_ok_def apply_update_fields)
next
  case (EvSave a b c d e f)
  then show ?thesis using assms
    by (simp add: job_of_def world_ok_def SaveAnalysisResultFull_def Let_def split: option.splits)
qed (use assms in \<open>simp_all add: job_of_def world_ok_def\<close>)

lemma track_Cons: "track (e # es) v = track [e] v @ track es (last (v # track [e] v))"
  by (cases e) simp_all

lemma exec_trace_track:
  assumes "job_of jid w = Some j" "world_ok jid w" "list_all (benign jid) evs"
  shows "\<exists>js. map (job_of jid) (exec_trace env evs w) = map Some js
       \<and> length js = length evs
       \<and> exec env evs w = Inr (last (w # exec_trace env evs w))
       \<and> list_all (world_ok jid) (exec_trace env evs w)
       \<and> map (\<lambda>j'. (Progress j', Status j')) js = track evs (Progress j, Status j)
       \<and> (\<forall>j' \<in> set js. Total j' = Total j)"
  using assms
proof (induction evs arbitrary: w j)
  case Nil
  then show ?case by simp
next
  case (Cons e es)
  from Cons.prems have b: "benign jid e" "list_all (benign jid) es" by simp_all
  from perform_benign[OF Cons.prems(1,2) b(1), of env] obtain w' j' where
    p: "perform env e w = Inr w'" "job_of jid w' = Some j'" "world_ok jid w'"
       "Total j' = Total j" "[(Progress j', Status j')] = track [e] (Progress j, Status j)"
    by blast
  from Cons.IH[OF p(2,3) b(2)] obtain js where
    ih: "map (job_of jid) (exec_trace env es w') = map Some js"
        "length js = length es"
        "exec env es w' = Inr (last (w' # exec_trace env es w'))"
        "list_all (world_ok jid) (exec_trace env es w')"
        "map (\<lambda>j'. (Progress j', Status j')) js = track es (Progress j', Status j')"
        "\<forall>j'' \<in> set js. Total j'' = Total j'"
    by blast
  have tr: "track (e # es) (Progress j, Status j)
             = (Progress j', Status j') # track es (Progress j', Status j')"
    using track_Cons[of e es "(Progress j, Status j)"] p(5)[symmetric] by simp
  have "map (job_of jid) (exec_trace env (e # es) w) = map Some (j' # js)"
    using p(1,2) ih(1) by simp
  moreover have "length (j' # js) = length (e # es)" using ih(2) by simp
  moreover have "exec env (e # es) w = Inr (last (w # exec_trace env (e # es) w))"
    using p(1) ih(3) by simp
  moreover have "list_all (world_ok jid) (exec_trace env (e # es) w)"
    using p(1,3) ih(4) by simp
  moreover have "map (\<lambda>j'. (Progress j', Status j')) (j' # js) = track (e # es) (Progress j, Status j)"
    using tr ih(5) by simp
  moreover have "\<forall>j'' \<in> set (j' # js). Total j'' = Total j"
    using p(4) ih(6) by simp
  ultimately show ?case by blast
qed

lemma retry_loop_shape:
  "attempt \<le> maxRetries \<or> (acc = (None, Some e0)) \<Longrightarrow>
   retry_loop env i s req maxRetries attempt acc = (evs, result, err) \<Longrightarrow>
   list_all attempt_event evs \<and> ((\<exists>r. result = Some r \<and> err = None) \<or> (\<exists>e. result = None \<and> err = Some e))"
proof (induction env i s req maxRetries attempt acc arbitrary: evs result err e0 rule: retry_loop.induct)
  case (1 env i strategy req maxRetries attempt result0 err0)
  show ?case
  proof (cases "attempt \<le> maxRetries")
    case False
    with "1.prems" show ?thesis by auto
  next
    case True
    show ?thesis
    proof (cases "RunStrategy env i attempt strategy req")
      case (Inr res)
      with True "1.prems"(2) show ?thesis by (auto simp: Let_def)
    next
      case (Inl e)
      obtain evs' result' err' where
        rec: "retry_loop env i strategy req maxRetries (Suc attempt) (None, Some e) = (evs', result', err')"
        by (metis prod_cases3)
      have "list_all attempt_event evs' \<and> ((\<exists>r. result' = Some r \<and> err' = None) \<or> (\<exists>e. result' = None \<and> err' = Some e))"
        using "1.IH"[OF True refl Inl _ rec, of e] by blast
      moreover have "evs = ((if attempt > 0 then [EvSleep 5] else []) @ [EvRunStrategy strategy attempt]) @ evs'"
        "result = result'" "err = err'"
        using "1.prems"(2) True Inl rec by (simp_all add: Let_def)
      ultimately show ?thesis by auto
    qed
  qed
qed

lemma track_attempts: "list_all attempt_event evs \<Longrightarrow> track evs v = replicate (length evs) v"
proof (induction evs)
  case Nil then show ?case by simp
next
  case (Cons e es)
  then show ?case by (cases e) simp_all
qed

lemma benign_attempts: "list_all attempt_event evs \<Longrightarrow> list_all (benign jid) evs"
proof (induction evs)
  case Nil then show ?case by simp
next
  case (Cons e es)
  then show ?case by (cases e) simp_all
qed

lemma track_append: "track (a @ b) v = track a v @ track b (last (v # track a v))"
proof (induction a arbitrary: v)
  case Nil then show ?case by simp
next
  case (Cons e es)
  show ?case by (cases e) (simp_all add: Cons.IH)
qed

lemma strategy_step_shape:
  "\<exists>evs tail. strategy_step env jobID repoID req lang i s
      = [EvUpdateJob jobID s (int i) ''running''] @ evs @
        [tail, EvUpdateJob jobID s (int i + 1) ''running'']
    \<and> list_all attempt_event evs \<and> (\<exists>a b c d e f. tail = EvSave a b c d e f)"
proof -
  obtain evs result err where
    r: "retry_loop env i s req 2 0 (None, None) = (evs, result, err)"
    by (metis prod_cases3)
  from retry_loop_shape[OF _ r] have
    sh: "list_all attempt_event evs"
        "(\<exists>r. result = Some r \<and> err = None) \<or> (\<exists>e. result = None \<and> err = Some e)"
    by auto
  from sh(2) show ?thesis
  proof
    assume "\<exists>r. result = Some r \<and> err = None"
    then show ?thesis using r sh(1) by (auto simp: strategy_step_def Let_def)
  next
    assume "\<exists>e. result = None \<and> err = Some e"
    then show ?thesis using r sh(1) by (auto simp: strategy_step_def Let_def)
  qed
qed

lemma strategy_step_benign: "list_all (benign jobID) (strategy_step env jobID repoID req lang i s)"
proof -
  from strategy_step_shape[of env jobID repoID req lang i s] obtain evs tail where
    "strategy_step env jobID repoID req lang i s
      = [EvUpdateJob jobID s (int i) ''running''] @ evs @
        [tail, EvUpdateJob jobID s (int i + 1) ''running'']"
    "list_all attempt_event evs" "\<exists>a b c d e f. tail = EvSave a b c d e f"
    by blast
  then show ?thesis using benign_attempts[of evs jobID] by auto
qed

lemma strategy_step_track:
  "\<exists>m. track (strategy_step env jobID repoID req lang i s) v
      = replicate (Suc m) (int i, ''running'') @ [(int i + 1, ''running'')]"
proof -
  from strategy_step_shape[of env jobID repoID req lang i s] obtain evs tail where
    sh: "strategy_step env jobID repoID req lang i s
      = [EvUpdateJob jobID s (int i) ''running''] @ evs @
        [tail, EvUpdateJob jobID s (int i + 1) ''running'']"
    "list_all attempt_event evs" "\<exists>a b c d e f. tail = EvSave a b c d e f"
    by blast
  have "track (strategy_step env jobID repoID req lang i s) v
      = (int i, ''running'') # replicate (length evs) (int i, ''running'')
        @ [(int i, ''running''), (int i + 1, ''running'')]"
    using sh(3) by (auto simp: sh(1) track_append track_attempts[OF sh(2)])
  also have "\<dots> = replicate (Suc (Suc (length evs))) (int i, ''running'') @ [(int i + 1, ''running'')]"
    by (simp add: replicate_append_same)
  finally show ?thesis by blast
qed

lemma strategy_loop_benign:
  "list_all (benign jobID) (strategy_loop env jobID repoID req lang i ss)"
  by (induction ss arbitrary: i) (simp_all add: strategy_step_benign)

lemma last_track_step:
  "last (v # track (strategy_step env jobID repoID req lang i s) v) = (int i + 1, ''running'')"
proof -
  from strategy_step_track[of env jobID repoID req lang i s v] obtain m where
    "track (strategy_step env jobID repoID req lang i s) v
      = replicate (Suc m) (int i, ''running'') @ [(int i + 1, ''running'')]" by blast
  then show ?thesis by simp
qed

lemma strategy_loop_track:
  "sorted (map fst (track (strategy_loop env jobID repoID req lang i ss) v))
   \<and> (\<forall>x \<in> set (track (strategy_loop env jobID repoID req lang i ss) v).
        int i \<le> fst x \<and> fst x \<le> int i + int (length ss) \<and> snd x = ''running'')"
proof (induction ss arbitrary: i v)
  case Nil
  then show ?case by simp
next
  case (Cons s ss)
  from strategy_step_track[of env jobID repoID req lang i s v] obtain m where
    st: "track (strategy_step env jobID repoID req lang i s) v
      = replicate (Suc m) (int i, ''running'') @ [(int i + 1, ''running'')]" by blast
  let ?rest = "track (strategy_loop env jobID repoID req lang (Suc i) ss) (int i + 1, ''running'')"
  have tr: "track (strategy_loop env jobID repoID req lang i (s # ss)) v
      = (replicate (Suc m) (int i, ''running'') @ [(int i + 1, ''running'')]) @ ?rest"
    using st last_track_step[of v env jobID repoID req lang i s]
    by (simp add: track_append)
  from Cons.IH[of "Suc i" "(int i + 1, ''running'')"] have
    ih: "sorted (map fst ?rest)"
        "\<forall>x \<in> set ?rest. int (Suc i) \<le> fst x \<and> fst x \<le> int (Suc i) + int (length ss) \<and> snd x = ''running''"
    by auto
  have "sorted (map fst ((replicate (Suc m) (int i, ''running'') @ [(int i + 1, ''running'')]) @ ?rest))"
    using ih by (auto simp: sorted_append)
  moreover have "\<forall>x \<in> set ((replicate (Suc m) (int i, ''running'') @ [(int i + 1, ''running'')]) @ ?rest).
        int i \<le> fst x \<and> fst x \<le> int i + int (length (s # ss)) \<and> snd x = ''running''"
    using ih(2) by auto
  ultimately show ?case unfolding tr by blast
qed

lemma terminal_transitions_running:
  "\<forall>x \<in> set xs. x = ''running'' \<Longrightarrow> terminal_transitions (''running'' # xs @ [''complete'']) = 1"
proof (induction xs)
  case Nil
  then show ?case by (simp add: terminal_def)
next
  case (Cons x xs)
  then show ?case by (simp add: terminal_def)
qed

lemma runAnalysisJob_events_benign:
  "list_all (benign jobID) (runAnalysisJob_events env jobID repoID req strategies lang)"
  by (simp add: runAnalysisJob_events_def strategy_loop_benign)

lemma job_created_props:
  "job_of jobID (job_created jobID repoID strategies w) =
     Some \<lparr>ID = jobID, RepoID = repoID, Status = ''running'', Progress = 0,
           Total = int (length strategies), Current = [], Results = [], Error = [],
           StartedAt = clock w, CompletedAt = 0\<rparr>"
  "world_ok jobID (job_created jobID repoID strategies w) = world_ok jobID w"
  "analysis_results (job_created jobID repoID strategies w) = analysis_results w"
  "db_calls (job_created jobID repoID strategies w) = db_calls w"
  by (simp_all add: job_created_def job_of_def world_ok_def CreateJob_def)

lemma run_history:
  assumes "world_ok jobID w"
  shows "\<exists>js. job_history env jobID repoID req strategies lang w = map Some js
      \<and> length js = Suc (length (runAnalysisJob_events env jobID repoID req strategies lang))
      \<and> map (\<lambda>j. (Progress j, Status j)) js
          = (0, ''running'')
            # track (strategy_loop env jobID repoID req lang 0 strategies) (0, ''running'')
            @ [(int (length strategies), ''complete'')]
      \<and> (\<forall>j \<in> set js. Total j = int (length strategies))
      \<and> RunAnalysis env jobID repoID req strategies lang w
          = Inr (last (job_created jobID repoID strategies w
                       # exec_trace env (runAnalysisJob_events env jobID repoID req strategies lang)
                           (job_created jobID repoID strategies w)))"
proof -
  let ?w0 = "job_created jobID repoID strategies w"
  let ?evs = "runAnalysisJob_events env jobID repoID req strategies lang"
  let ?j0 = "\<lparr>ID = jobID, RepoID = repoID, Status = ''running'', Progress = 0,
           Total = int (length strategies), Current = [], Results = [], Error = [],
           StartedAt = clock w, CompletedAt = 0\<rparr>"
  have j0: "job_of jobID ?w0 = Some ?j0" by (rule job_created_props)
  have ok: "world_ok jobID ?w0" using assms by (simp add: job_created_props)
  from exec_trace_track[OF j0 ok runAnalysisJob_events_benign[of jobID env repoID req strategies lang], of env]
  obtain js where
    js: "map (job_of jobID) (exec_trace env ?evs ?w0) = map Some js"
        "length js = length ?evs"
        "exec env ?evs ?w0 = Inr (last (?w0 # exec_trace env ?evs ?w0))"
        "map (\<lambda>j'. (Progress j', Status j')) js = track ?evs (Progress ?j0, Status ?j0)"
        "\<forall>j' \<in> set js. Total j' = Total ?j0"
    by blast
  have tr: "track ?evs (0, ''running'')
      = track (strategy_loop env jobID repoID req lang 0 strategies) (0, ''running'')
        @ [(int (length strategies), ''complete'')]"
    by (simp add: runAnalysisJob_events_def track_append)
  have h1: "job_history env jobID repoID req strategies lang w = map Some (?j0 # js)"
    using j0 js(1) by (simp add: job_history_def Let_def)
  have h2: "length (?j0 # js) = Suc (length ?evs)" using js(2) by simp
  have h3: "map (\<lambda>j. (Progress j, Status j)) (?j0 # js)
          = (0, ''running'')
            # track (strategy_loop env jobID repoID req lang 0 strategies) (0, ''running'')
            @ [(int (length strategies), ''complete'')]"
    using js(4) tr by simp
  have h4: "\<forall>j \<in> set (?j0 # js). Total j = int (length strategies)"
    using js(5) by simp
  have h5: "RunAnalysis env jobID repoID req strategies lang w
          = Inr (last (?w0 # exec_trace env ?evs ?w0))"
    using js(3) by (simp add: RunAnalysis_def runAnalysisJob_def)
  show ?thesis
    by (rule exI[where x = "?j0 # js"]) (intro conjI h1 h2 h3 h4 h5)
qed

lemma UpdateJob_total:
  assumes "sendable (subs t jid) (chans t)"
  shows "\<exists>t'. UpdateJob jid s p st now t = Inr t' \<and> subs t' = subs t
            \<and> map closed (chans t') = map closed (chans t)"
proof (cases "jobs t jid")
  case None
  then show ?thesis by (simp add: UpdateJob_def UpdateJob_locked_def)
next
  case (Some job)
  from UpdateJob_applies[OF Some assms, of s p st now] show ?thesis by blast
qed

lemma perform_rows:
  assumes "world_ok jid w" "benign jid e" "\<forall>n. db_Exec env n = None"
  shows "\<exists>w'. perform env e w = Inr w' \<and> world_ok jid w'
           \<and> analysis_results w' = analysis_results w @ rows_of env [e]"
proof (cases e)
  case (EvUpdateJob i s p st)
  with assms(2) have i: "i = jid" by simp
  from assms(1) have a: "sendable (subs (tracker w) jid) (chans (tracker w))"
    by (simp add: world_ok_def)
  from UpdateJob_total[OF a, of s p st "clock w"] obtain t' where
    t': "UpdateJob jid s p st (clock w) (tracker w) = Inr t'" "subs t' = subs (tracker w)"
        "map closed (chans t') = map closed (chans (tracker w))"
    by blast
  have "sendable (subs t' jid) (chans t')" using t'(2,3) a sendable_preserved by simp
  then show ?thesis using EvUpdateJob i t'(1) by (simp add: world_ok_def)
next
  case (EvSave a b c d e f)
  then show ?thesis using assms
    by (simp add: world_ok_def SaveAnalysisResultFull_def Let_def)
qed (use assms in \<open>simp_all add: world_ok_def\<close>)

lemma rows_of_append: "rows_of env (a @ b) = rows_of env a @ rows_of env b"
proof (induction a)
  case Nil then show ?case by simp
next
  case (Cons e es) then show ?case by (cases e) simp_all
qed

lemma update_calls_append: "update_calls (a @ b) = update_calls a @ update_calls b"
proof (induction a)
  case Nil then show ?case by simp
next
  case (Cons e es) then show ?case by (cases e) simp_all
qed

lemma rows_of_attempts: "list_all attempt_event evs \<Longrightarrow> rows_of env evs = []"
proof (induction evs)
  case Nil then show ?case by simp
next
  case (Cons e es) then show ?case by (cases e) simp_all
qed

lemma update_calls_attempts: "list_all attempt_event evs \<Longrightarrow> update_calls evs = []"
proof (induction evs)
  case Nil then show ?case by simp
next
  case (Cons e es) then show ?case by (cases e) simp_all
qed

lemma exec_rows:
  assumes "world_ok jid w" "list_all (benign jid) evs" "\<forall>n. db_Exec env n = None"
  shows "\<exists>w'. exec env evs w = Inr w' \<and> world_ok jid w'
           \<and> analysis_results w' = analysis_results w @ rows_of env evs"
  using assms(1,2)
proof (induction evs arbitrary: w)
  case Nil
  then show ?case by simp
next
  case (Cons e es)
  from Cons.prems have b: "benign jid e" "list_all (benign jid) es" by simp_all
  from perform_rows[OF Cons.prems(1) b(1) assms(3)] obtain w1 where
    w1: "perform env e w = Inr w1" "world_ok jid w1"
        "analysis_results w1 = analysis_results w @ rows_of env [e]" by blast
  from Cons.IH[OF w1(2) b(2)] obtain w' where
    w': "exec env es w1 = Inr w'" "world_ok jid w'"
        "analysis_results w' = analysis_results w1 @ rows_of env es" by blast
  have "rows_of env (e # es) = rows_of env [e] @ rows_of env es"
    using rows_of_append[of env "[e]" es] by simp
  then show ?case using w1(1,3) w' by simp
qed

lemma strategy_step_update_calls:
  "update_calls (strategy_step env jobID repoID req lang i s)
     = [EvUpdateJob jobID s (int i) ''running'', EvUpdateJob jobID s (int i + 1) ''running'']"
proof -
  from strategy_step_shape[of env jobID repoID req lang i s] obtain evs tail where
    sh: "strategy_step env jobID repoID req lang i s
      = [EvUpdateJob jobID s (int i) ''running''] @ evs @
        [tail, EvUpdateJob jobID s (int i + 1) ''running'']"
    "list_all attempt_event evs" "\<exists>a b c d e f. tail = EvSave a b c d e f"
    by blast
  from sh(3) show ?thesis
    by (auto simp: sh(1) update_calls_append update_calls_attempts[OF sh(2)])
qed

lemma strategy_loop_update_calls:
  "update_calls (strategy_loop env jobID repoID req lang i ss)
     = concat (map (\<lambda>(k, s). [EvUpdateJob jobID s (int k) ''running'',
                                EvUpdateJob jobID s (int k + 1) ''running''])
                   (enumerate i ss))"
  by (induction ss arbitrary: i) (simp_all add: update_calls_append strategy_step_update_calls)

text \<open>
  Claim C2. A job is created by CreateJob with total = number of strategies and driven
  by the background loop, in a tracker none of whose subscriber channels for the job is
  closed. Then every call of the loop returns, and over the stored job states (after
  creation and after each call) the progress is non-decreasing, lies between 0 and the
  total, and the status passes from non-terminal to terminal exactly once. The UpdateJob
  calls of the loop are, per strategy at index \<open>i\<close>, one with progress \<open>i\<close> and one with
  progress \<open>i + 1\<close>, both with status running, and last the one with status complete
  and progress = number of strategies.
\<close>

theorem job_progress_monotone_single_terminal:
  assumes "sendable (subs (tracker w) jobID) (chans (tracker w))"
  shows "\<exists>js. job_history env jobID repoID req strategies lang w = map Some js
      \<and> length js = Suc (length (runAnalysisJob_events env jobID repoID req strategies lang))
      \<and> sorted (map Progress js)
      \<and> (\<forall>j \<in> set js. 0 \<le> Progress j \<and> Progress j \<le> Total j)
      \<and> terminal_transitions (map Status js) = 1
      \<and> update_calls (runAnalysisJob_events env jobID repoID req strategies lang) =
          concat (map (\<lambda>(i, s). [EvUpdateJob jobID s (int i) ''running'',
                                   EvUpdateJob jobID s (int i + 1) ''running''])
                      (enumerate 0 strategies))
          @ [EvUpdateJob jobID [] (int (length strategies)) ''complete'']"
proof -
  let ?tr = "track (strategy_loop env jobID repoID req lang 0 strategies) (0, ''running'')"
  have u: "update_calls (runAnalysisJob_events env jobID repoID req strategies lang) =
          concat (map (\<lambda>(i, s). [EvUpdateJob jobID s (int i) ''running'',
                                   EvUpdateJob jobID s (int i + 1) ''running''])
                      (enumerate 0 strategies))
          @ [EvUpdateJob jobID [] (int (length strategies)) ''complete'']"
    by (simp add: runAnalysisJob_events_def update_calls_append strategy_loop_update_calls)
  let ?n = "int (length strategies)"
  from assms have ok: "world_ok jobID w" by (simp add: world_ok_def)
  from run_history[OF ok, of env repoID req strategies lang] obtain js where
    js: "job_history env jobID repoID req strategies lang w = map Some js"
        "length js = Suc (length (runAnalysisJob_events env jobID repoID req strategies lang))"
        "map (\<lambda>j. (Progress j, Status j)) js = (0, ''running'') # ?tr @ [(?n, ''complete'')]"
        "\<forall>j \<in> set js. Total j = ?n"
    by (elim exE conjE) simp
  from strategy_loop_track[of env jobID repoID req lang 0 strategies "(0, ''running'')"] have
    lt: "sorted (map fst ?tr)"
        "\<forall>x \<in> set ?tr. 0 \<le> fst x \<and> fst x \<le> ?n \<and> snd x = ''running''"
    by auto
  have "map Progress js = map fst (map (\<lambda>j. (Progress j, Status j)) js)" by (simp add: comp_def)
  then have pr: "map Progress js = 0 # map fst ?tr @ [?n]" using js(3) by simp
  have "map Status js = map snd (map (\<lambda>j. (Progress j, Status j)) js)" by (simp add: comp_def)
  then have st: "map Status js = ''running'' # map snd ?tr @ [''complete'']" using js(3) by simp
  have s: "sorted (map Progress js)"
    unfolding pr using lt by (auto simp: sorted_append)
  have "\<forall>p \<in> set (map Progress js). 0 \<le> p \<and> p \<le> ?n"
    unfolding pr using lt(2) by auto
  then have b: "\<forall>j \<in> set js. 0 \<le> Progress j \<and> Progress j \<le> Total j"
    using js(4) by auto
  have t: "terminal_transitions (map Status js) = 1"
    unfolding st using lt(2) by (intro terminal_transitions_running) auto
  show ?thesis
    by (rule exI[where x = js]) (intro conjI js(1) js(2) s b t u)
qed

lemma demo_world_sendable:
  "sendable (subs (tracker demo_world) ''job-0001'') (chans (tracker demo_world))"
  by (simp add: demo_world_def Subscribe_def NewJobTracker_def sendable_def Let_def)

theorem job_history_witness:
  "sendable (subs (tracker demo_world) ''job-0001'') (chans (tracker demo_world)) \<and>
   (\<exists>js. job_history flaky_env ''job-0001'' ''repo-1'' () five_strategies ''en'' demo_world = map Some js
      \<and> length js = Suc (length (runAnalysisJob_events flaky_env ''job-0001'' ''repo-1'' ()
                                   five_strategies ''en''))
      \<and> sorted (map Progress js)
      \<and> (\<forall>j \<in> set js. 0 \<le> Progress j \<and> Progress j \<le> Total j)
      \<and> terminal_transitions (map Status js) = 1)"
proof -
  from job_progress_monotone_single_terminal
    [OF demo_world_sendable, of flaky_env "''repo-1''" "()" five_strategies "''en''"]
  obtain js where
    js: "job_history flaky_env ''job-0001'' ''repo-1'' () five_strategies ''en'' demo_world = map Some js"
        "length js = Suc (length (runAnalysisJob_events flaky_env ''job-0001'' ''repo-1'' ()
                                   five_strategies ''en''))"
        "sorted (map Progress js)"
        "\<forall>j \<in> set js. 0 \<le> Progress j \<and> Progress j \<le> Total j"
        "terminal_transitions (map Status js) = 1"
    by blast
  have ex: "\<exists>js. job_history flaky_env ''job-0001'' ''repo-1'' () five_strategies ''en'' demo_world = map Some js
      \<and> length js = Suc (length (runAnalysisJob_events flaky_env ''job-0001'' ''repo-1'' ()
                                   five_strategies ''en''))
      \<and> sorted (map Progress js)
      \<and> (\<forall>j \<in> set js. 0 \<le> Progress j \<and> Progress j \<le> Total j)
      \<and> terminal_transitions (map Status js) = 1"
    by (rule exI[where x = js]) (intro conjI js)
  show ?thesis by (intro conjI demo_world_sendable ex)
qed

lemma retry_loop_all_fail:
  assumes "\<forall>a \<le> 2. isl (engine_Run env i a s req)"
  shows "retry_loop env i s req 2 0 (None, None) =
          ([EvRunStrategy s 0, EvSleep 5, EvRunStrategy s 1, EvSleep 5, EvRunStrategy s 2],
           None, Some (''run strategy '' @ s @ '': '' @ projl (engine_Run env i 2 s req)))"
proof -
  from assms have "isl (engine_Run env i 0 s req)" "isl (engine_Run env i 1 s req)"
    "isl (engine_Run env i 2 s req)" by simp_all
  then obtain e0 e1 e2 where
    e: "engine_Run env i 0 s req = Inl e0" "engine_Run env i 1 s req = Inl e1"
       "engine_Run env i 2 s req = Inl e2"
    by (auto simp: isl_def)
  have r0: "RunStrategy env i 0 s req = Inl (''run strategy '' @ s @ '': '' @ e0)"
    and r1: "RunStrategy env i (Suc 0) s req = Inl (''run strategy '' @ s @ '': '' @ e1)"
    and r2: "RunStrategy env i (Suc (Suc 0)) s req = Inl (''run strategy '' @ s @ '': '' @ e2)"
    using e by (simp_all add: RunStrategy_def numeral_2_eq_2)
  have s3: "retry_loop env i s req 2 (Suc (Suc (Suc 0))) (None, Some (''run strategy '' @ s @ '': '' @ e2))
            = ([], None, Some (''run strategy '' @ s @ '': '' @ e2))"
    by simp
  have s2: "retry_loop env i s req 2 (Suc (Suc 0)) (None, Some (''run strategy '' @ s @ '': '' @ e1))
            = ([EvSleep 5, EvRunStrategy s 2], None, Some (''run strategy '' @ s @ '': '' @ e2))"
    using r2 s3 by (subst retry_loop.simps) (simp add: numeral_2_eq_2)
  have s1: "retry_loop env i s req 2 (Suc 0) (None, Some (''run strategy '' @ s @ '': '' @ e0))
            = ([EvSleep 5, EvRunStrategy s 1, EvSleep 5, EvRunStrategy s 2], None,
               Some (''run strategy '' @ s @ '': '' @ e2))"
    using r1 s2 by (subst retry_loop.simps) simp
  show ?thesis using r0 s1 e(3) by (subst retry_loop.simps) simp
qed

lemma retry_loop_third_succeeds:
  assumes "isl (engine_Run env i 0 s req)" "isl (engine_Run env i 1 s req)"
    "engine_Run env i 2 s req = Inr r"
  shows "retry_loop env i s req 2 0 (None, None) =
          ([EvRunStrategy s 0, EvSleep 5, EvRunStrategy s 1, EvSleep 5, EvRunStrategy s 2],
           Some r, None)"
proof -
  from assms(1,2) obtain e0 e1 where
    e: "engine_Run env i 0 s req = Inl e0" "engine_Run env i 1 s req = Inl e1"
    by (auto simp: isl_def)
  have r0: "RunStrategy env i 0 s req = Inl (''run strategy '' @ s @ '': '' @ e0)"
    and r1: "RunStrategy env i (Suc 0) s req = Inl (''run strategy '' @ s @ '': '' @ e1)"
    and r2: "RunStrategy env i (Suc (Suc 0)) s req = Inr r"
    using e assms(3) by (simp_all add: RunStrategy_def numeral_2_eq_2)
  have s2: "retry_loop env i s req 2 (Suc (Suc 0)) (None, Some (''run strategy '' @ s @ '': '' @ e1))
            = ([EvSleep 5, EvRunStrategy s 2], Some r, None)"
    using r2 by (subst retry_loop.simps) (simp add: numeral_2_eq_2)
  have s1: "retry_loop env i s req 2 (Suc 0) (None, Some (''run strategy '' @ s @ '': '' @ e0))
            = ([EvSleep 5, EvRunStrategy s 1, EvSleep 5, EvRunStrategy s 2], Some r, None)"
    using r1 s2 by (subst retry_loop.simps) simp
  show ?thesis using r0 s1 by (subst retry_loop.simps) simp
qed

lemma runAnalysisJob_completes:
  assumes "job_of jid w = Some j0" "world_ok jid w"
  shows "\<exists>w' j. runAnalysisJob env jid repoID req ss lang w = Inr w' \<and> job_of jid w' = Some j
           \<and> Status j = ''complete'' \<and> Progress j = int (length ss) \<and> Total j = Total j0"
proof -
  let ?evs = "runAnalysisJob_events env jid repoID req ss lang"
  let ?tr = "exec_trace env ?evs w"
  from exec_trace_track[OF assms runAnalysisJob_events_benign[of jid env repoID req ss lang], of env]
  obtain js where
    js: "map (job_of jid) ?tr = map Some js" "length js = length ?evs"
        "exec env ?evs w = Inr (last (w # ?tr))"
        "map (\<lambda>j'. (Progress j', Status j')) js = track ?evs (Progress j0, Status j0)"
        "\<forall>j' \<in> set js. Total j' = Total j0"
    by blast
  have ne: "js \<noteq> []" using js(2) by (auto simp: runAnalysisJob_events_def)
  then have tne: "?tr \<noteq> []" using js(1) by auto
  have "job_of jid (last ?tr) = last (map (job_of jid) ?tr)" using tne by (simp add: last_map)
  also have "\<dots> = Some (last js)" using js(1) ne by (simp add: last_map)
  finally have j: "job_of jid (last (w # ?tr)) = Some (last js)" using tne by simp
  have "track ?evs (Progress j0, Status j0)
      = track (strategy_loop env jid repoID req lang 0 ss) (Progress j0, Status j0)
        @ [(int (length ss), ''complete'')]"
    by (simp add: runAnalysisJob_events_def track_append)
  then have "last (map (\<lambda>j'. (Progress j', Status j')) js) = (int (length ss), ''complete'')"
    using js(4) by simp
  then have v: "Progress (last js) = int (length ss)" "Status (last js) = ''complete''"
    using ne by (simp_all add: last_map)
  have t: "Total (last js) = Total j0" using js(5) ne by simp
  show ?thesis using js(3) j v t by (simp add: runAnalysisJob_def)
qed

lemma strategy_step_all_fail:
  assumes "\<forall>a \<le> 2. isl (engine_Run env i a s req)"
  shows "strategy_step env jobID repoID req lang i s =
     [EvUpdateJob jobID s (int i) ''running'',
      EvRunStrategy s 0, EvSleep 5, EvRunStrategy s 1, EvSleep 5, EvRunStrategy s 2,
      EvSave repoID s
        (failSummary s 3 (''run strategy '' @ s @ '': '' @ projl (engine_Run env i 2 s req)))
        ''{}'' 0 [],
      EvUpdateJob jobID s (int i + 1) ''running'']"
  by (simp add: strategy_step_def retry_loop_all_fail[OF assms] Let_def del: retry_loop.simps)

lemma strategy_step_third_succeeds:
  assumes "isl (engine_Run env i 0 s req)" "isl (engine_Run env i 1 s req)"
    "engine_Run env i 2 s req = Inr r"
  shows "strategy_step env jobID repoID req lang i s =
     [EvUpdateJob jobID s (int i) ''running'',
      EvRunStrategy s 0, EvSleep 5, EvRunStrategy s 1, EvSleep 5, EvRunStrategy s 2,
      EvSave repoID s (Summary r) (json_Marshal env (Details r)) (Score r)
        (if lang \<noteq> [] \<and> lang \<noteq> ''en'' then translateReport env i (Summary r) lang else []),
      EvUpdateJob jobID s (int i + 1) ''running'']"
  by (simp add: strategy_step_def retry_loop_third_succeeds[OF assms] Let_def del: retry_loop.simps)

lemma rows_of_loop_all_fail:
  assumes "\<forall>(k, s) \<in> set (enumerate i ss). \<forall>a \<le> 2. isl (engine_Run env k a s req)"
  shows "rows_of env (strategy_loop env jobID repoID req lang i ss) =
     map (\<lambda>(k, s). \<lparr>col_repo_id = repoID, col_strategy = s,
            col_summary = failSummary s 3
              (''run strategy '' @ s @ '': '' @ projl (engine_Run env k 2 s req)),
            col_details = stored_details env ''{}'', col_score = 0,
            col_summary_translated = []\<rparr>) (enumerate i ss)"
  using assms
proof (induction ss arbitrary: i)
  case Nil
  then show ?case by simp
next
  case (Cons s ss)
  from Cons.prems have f: "\<forall>a \<le> 2. isl (engine_Run env i a s req)"
    and r: "\<forall>(k, s) \<in> set (enumerate (Suc i) ss). \<forall>a \<le> 2. isl (engine_Run env k a s req)"
    by simp_all
  show ?case
    by (simp add: rows_of_append strategy_step_all_fail[OF f] Cons.IH[OF r])
qed

lemma strategy_loop_iteration:
  "i < length ss \<Longrightarrow>
   \<exists>pre post. strategy_loop env jobID repoID req lang k ss
      = pre @ strategy_step env jobID repoID req lang (k + i) (ss ! i) @ post"
proof (induction ss arbitrary: k i)
  case Nil
  then show ?case by simp
next
  case (Cons s ss)
  show ?case
  proof (cases i)
    case 0
    have "strategy_loop env jobID repoID req lang k (s # ss)
        = [] @ strategy_step env jobID repoID req lang (k + 0) ((s # ss) ! 0)
          @ strategy_loop env jobID repoID req lang (Suc k) ss"
      by simp
    then show ?thesis unfolding 0 by blast
  next
    case (Suc j)
    with Cons.prems have "j < length ss" by simp
    from Cons.IH[OF this, of "Suc k"] obtain pre post where
      "strategy_loop env jobID repoID req lang (Suc k) ss
         = pre @ strategy_step env jobID repoID req lang (Suc k + j) (ss ! j) @ post"
      by blast
    then have "strategy_loop env jobID repoID req lang k (s # ss)
        = (strategy_step env jobID repoID req lang k s @ pre)
          @ strategy_step env jobID repoID req lang (k + i) ((s # ss) ! i) @ post"
      using Suc by simp
    then show ?thesis by blast
  qed
qed

lemma run_contains_iteration:
  "i < length strategies \<Longrightarrow>
   \<exists>pre post. runAnalysisJob_events env jobID repoID req strategies lang
      = pre @ strategy_step env jobID repoID req lang i (strategies ! i) @ post"
proof -
  assume "i < length strategies"
  from strategy_loop_iteration[OF this, of env jobID repoID req lang 0] obtain pre post where
    "strategy_loop env jobID repoID req lang 0 strategies
       = pre @ strategy_step env jobID repoID req lang i (strategies ! i) @ post"
    by auto
  then have "runAnalysisJob_events env jobID repoID req strategies lang
      = pre @ strategy_step env jobID repoID req lang i (strategies ! i)
        @ (post @ [EvUpdateJob jobID [] (int (length strategies)) ''complete''])"
    by (simp add: runAnalysisJob_events_def)
  then show ?thesis by blast
qed

text \<open>
  Claim C3 says that UpdateJob is called with status running exactly 3 times for the
  strategy's index before the progress advance when the strategy fails twice and then
  succeeds. In that scenario the loop marks the index once, before the first attempt:
  the count is 1, not 3.
\<close>

theorem retried_strategy_counterexample:
  "isl (engine_Run flaky_env 0 0 ''architecture'' ()) \<and>
   isl (engine_Run flaky_env 0 1 ''architecture'' ()) \<and>
   engine_Run flaky_env 0 2 ''architecture'' () = Inr demo_result \<and>
   running_marks ''job-0001'' 0
     (before_advance ''job-0001'' ''architecture'' 0
        (runAnalysisJob_events flaky_env ''job-0001'' ''repo-1'' () [''architecture''] ''en'')) \<noteq> 3"
proof -
  have a: "isl (engine_Run flaky_env 0 0 ''architecture'' ())"
    "isl (engine_Run flaky_env 0 1 ''architecture'' ())"
    "engine_Run flaky_env 0 2 ''architecture'' () = Inr demo_result"
    by (simp_all add: flaky_env_def)
  have "running_marks ''job-0001'' 0
     (before_advance ''job-0001'' ''architecture'' 0
        (runAnalysisJob_events flaky_env ''job-0001'' ''repo-1'' () [''architecture''] ''en'')) = 1"
    by (simp add: runAnalysisJob_events_def strategy_step_third_succeeds[OF a]
        running_marks_def before_advance_def)
  then show ?thesis using a by simp
qed

text \<open>
  Claim C3 as amended. When the strategy of iteration \<open>i\<close> fails on its first two
  attempts and succeeds on the third, the iteration issues exactly: one UpdateJob(strategy, i, running), three RunStrategy attempts with a
  5 second sleep before the second and the third, one save of the successful result,
  and the advance UpdateJob(strategy, i+1, running). So UpdateJob is called with running
  exactly once for the strategy's index before the advance, three attempts are made,
  and, the database accepting the insert and no subscriber channel of the job being
  closed, the one row persisted for the strategy holds the summary and score of the
  successful result. These events are a segment of the events of every run whose
  \<open>i\<close>-th strategy it is.
\<close>

theorem retried_strategy_marked_running_once:
  assumes "isl (engine_Run env i 0 s req)" and "isl (engine_Run env i 1 s req)"
    and "engine_Run env i 2 s req = Inr r"
    and "\<forall>n. db_Exec env n = None"
    and "sendable (subs (tracker w) jobID) (chans (tracker w))"
  shows "strategy_step env jobID repoID req lang i s =
           [EvUpdateJob jobID s (int i) ''running'',
            EvRunStrategy s 0, EvSleep 5, EvRunStrategy s 1, EvSleep 5, EvRunStrategy s 2,
            EvSave repoID s (Summary r) (json_Marshal env (Details r)) (Score r)
              (if lang \<noteq> [] \<and> lang \<noteq> ''en'' then translateReport env i (Summary r) lang else []),
            EvUpdateJob jobID s (int i + 1) ''running'']
       \<and> running_marks jobID (int i)
            (before_advance jobID s i (strategy_step env jobID repoID req lang i s)) = 1
       \<and> attempts_made (before_advance jobID s i (strategy_step env jobID repoID req lang i s)) = 3
       \<and> (\<exists>w'. exec env (strategy_step env jobID repoID req lang i s) w = Inr w'
             \<and> analysis_results w' = analysis_results w @
                 [\<lparr>col_repo_id = repoID, col_strategy = s, col_summary = Summary r,
                   col_details = stored_details env (json_Marshal env (Details r)),
                   col_score = Score r,
                   col_summary_translated =
                     (if lang \<noteq> [] \<and> lang \<noteq> ''en''
                      then translateReport env i (Summary r) lang else [])\<rparr>])
       \<and> (\<forall>strategies. i < length strategies \<and> strategies ! i = s \<longrightarrow>
             (\<exists>pre post. runAnalysisJob_events env jobID repoID req strategies lang
                = pre @ strategy_step env jobID repoID req lang i s @ post))"
proof -
  note ev = strategy_step_third_succeeds[OF assms(1,2,3), of jobID repoID lang]
  have q: "\<forall>strategies. i < length strategies \<and> strategies ! i = s \<longrightarrow>
             (\<exists>pre post. runAnalysisJob_events env jobID repoID req strategies lang
                = pre @ strategy_step env jobID repoID req lang i s @ post)"
    using run_contains_iteration[of i _ env jobID repoID req lang] by blast
  have m: "running_marks jobID (int i)
            (before_advance jobID s i (strategy_step env jobID repoID req lang i s)) = 1"
    by (simp add: ev running_marks_def before_advance_def)
  have n: "attempts_made (before_advance jobID s i (strategy_step env jobID repoID req lang i s)) = 3"
    by (simp add: ev attempts_made_def before_advance_def)
  from assms(5) have ok: "world_ok jobID w" by (simp add: world_ok_def)
  from exec_rows[OF ok strategy_step_benign assms(4), of env repoID req lang i s]
  obtain w' where
    w': "exec env (strategy_step env jobID repoID req lang i s) w = Inr w'"
        "analysis_results w' = analysis_results w
           @ rows_of env (strategy_step env jobID repoID req lang i s)"
    by blast
  have "rows_of env (strategy_step env jobID repoID req lang i s) =
          [\<lparr>col_repo_id = repoID, col_strategy = s, col_summary = Summary r,
            col_details = stored_details env (json_Marshal env (Details r)),
            col_score = Score r,
            col_summary_translated =
              (if lang \<noteq> [] \<and> lang \<noteq> ''en''
               then translateReport env i (Summary r) lang else [])\<rparr>]"
    by (simp add: ev)
  with w' have p: "\<exists>w'. exec env (strategy_step env jobID repoID req lang i s) w = Inr w'
             \<and> analysis_results w' = analysis_results w @
                 [\<lparr>col_repo_id = repoID, col_strategy = s, col_summary = Summary r,
                   col_details = stored_details env (json_Marshal env (Details r)),
                   col_score = Score r,
                   col_summary_translated =
                     (if lang \<noteq> [] \<and> lang \<noteq> ''en''
                      then translateReport env i (Summary r) lang else [])\<rparr>]"
    by simp
  show ?thesis by (intro conjI ev m n p q)
qed

theorem retried_strategy_marked_running_once_witness:
  "isl (engine_Run flaky_env 0 0 ''architecture'' ()) \<and>
   isl (engine_Run flaky_env 0 1 ''architecture'' ()) \<and>
   engine_Run flaky_env 0 2 ''architecture'' () = Inr demo_result \<and>
   (\<forall>n. db_Exec flaky_env n = None) \<and>
   sendable (subs (tracker demo_world) ''job-0001'') (chans (tracker demo_world)) \<and>
   running_marks ''job-0001'' 0
     (before_advance ''job-0001'' ''architecture'' 0
        (strategy_step flaky_env ''job-0001'' ''repo-1'' () ''en'' 0 ''architecture'')) = 1 \<and>
   attempts_made
     (before_advance ''job-0001'' ''architecture'' 0
        (strategy_step flaky_env ''job-0001'' ''repo-1'' () ''en'' 0 ''architecture'')) = 3 \<and>
   (\<exists>w'. exec flaky_env (strategy_step flaky_env ''job-0001'' ''repo-1'' () ''en'' 0 ''architecture'')
            demo_world = Inr w'
      \<and> map col_score (analysis_results w') = [7]
      \<and> map col_summary (analysis_results w') = [''Layered design. Score: 7/10''])"
proof -
  have a: "isl (engine_Run flaky_env 0 0 ''architecture'' ())"
    "isl (engine_Run flaky_env 0 1 ''architecture'' ())"
    "engine_Run flaky_env 0 2 ''architecture'' () = Inr demo_result"
    by (simp_all add: flaky_env_def)
  have d: "\<forall>n. db_Exec flaky_env n = None" by (simp add: flaky_env_def)
  have r: "analysis_results demo_world = []" "Score demo_result = 7"
    "Summary demo_result = ''Layered design. Score: 7/10''"
    by (simp_all add: demo_world_def demo_result_def)
  note th = retried_strategy_marked_running_once
    [OF a d demo_world_sendable, of "''repo-1''" "''en''"]
  have m: "running_marks ''job-0001'' 0
     (before_advance ''job-0001'' ''architecture'' 0
        (strategy_step flaky_env ''job-0001'' ''repo-1'' () ''en'' 0 ''architecture'')) = 1"
    using th[THEN conjunct2, THEN conjunct1] by simp
  have n: "attempts_made
     (before_advance ''job-0001'' ''architecture'' 0
        (strategy_step flaky_env ''job-0001'' ''repo-1'' () ''en'' 0 ''architecture'')) = 3"
    using th[THEN conjunct2, THEN conjunct2, THEN conjunct1] by simp
  from th[THEN conjunct2, THEN conjunct2, THEN conjunct2, THEN conjunct1] obtain w' where
    w': "exec flaky_env (strategy_step flaky_env ''job-0001'' ''repo-1'' () ''en'' 0 ''architecture'')
            demo_world = Inr w'"
        "analysis_results w' = analysis_results demo_world @
                 [\<lparr>col_repo_id = ''repo-1'', col_strategy = ''architecture'',
                   col_summary = Summary demo_result,
                   col_details = stored_details flaky_env (json_Marshal flaky_env (Details demo_result)),
                   col_score = Score demo_result,
                   col_summary_translated =
                     (if ''en'' \<noteq> [] \<and> ''en'' \<noteq> ''en''
                      then translateReport flaky_env 0 (Summary demo_result) ''en'' else [])\<rparr>]"
    by blast
  have p: "map col_score (analysis_results w') = [7]"
    "map col_summary (analysis_results w') = [''Layered design. Score: 7/10'']"
    unfolding w'(2) by (simp_all add: r)
  have ex: "\<exists>w'. exec flaky_env (strategy_step flaky_env ''job-0001'' ''repo-1'' () ''en'' 0 ''architecture'')
            demo_world = Inr w'
      \<and> map col_score (analysis_results w') = [7]
      \<and> map col_summary (analysis_results w') = [''Layered design. Score: 7/10'']"
    by (rule exI[where x = w']) (intro conjI w'(1) p)
  show ?thesis by (intro conjI a d demo_world_sendable m n ex)
qed

text \<open>
  Claim C6. When every strategy fails on all three attempts (the database accepting
  inserts and no subscriber channel of the job being closed), the run returns, one
  failure report with score 0 and the error text is stored per strategy in loop order,
  the UpdateJob calls are, per strategy, one with progress \<open>i\<close> and one with progress
  \<open>i + 1\<close>, followed by the final one, and the job ends with status complete and progress
  equal to total.
\<close>

theorem all_strategies_fail_job_completes:
  assumes "\<forall>(i, s) \<in> set (enumerate 0 strategies). \<forall>a \<le> 2. isl (engine_Run env i a s req)"
    and "\<forall>n. db_Exec env n = None"
    and "sendable (subs (tracker w) jobID) (chans (tracker w))"
  shows "\<exists>w' j. RunAnalysis env jobID repoID req strategies lang w = Inr w'
      \<and> analysis_results w' = analysis_results w @
          map (\<lambda>(i, s). \<lparr>col_repo_id = repoID, col_strategy = s,
                 col_summary = failSummary s 3
                   (''run strategy '' @ s @ '': '' @ projl (engine_Run env i 2 s req)),
                 col_details = stored_details env ''{}'', col_score = 0,
                 col_summary_translated = []\<rparr>) (enumerate 0 strategies)
      \<and> update_calls (runAnalysisJob_events env jobID repoID req strategies lang) =
          concat (map (\<lambda>(i, s). [EvUpdateJob jobID s (int i) ''running'',
                                   EvUpdateJob jobID s (int i + 1) ''running''])
                      (enumerate 0 strategies))
          @ [EvUpdateJob jobID [] (int (length strategies)) ''complete'']
      \<and> job_of jobID w' = Some j \<and> Status j = ''complete''
      \<and> Progress j = Total j \<and> Total j = int (length strategies)"
proof -
  let ?w0 = "job_created jobID repoID strategies w"
  let ?evs = "runAnalysisJob_events env jobID repoID req strategies lang"
  from assms(3) have "world_ok jobID w" by (simp add: world_ok_def)
  then have ok: "world_ok jobID ?w0" by (simp add: job_created_props)
  from runAnalysisJob_completes[OF job_created_props(1) ok, of env repoID req strategies lang]
  obtain w' j where
    c: "runAnalysisJob env jobID repoID req strategies lang ?w0 = Inr w'"
       "job_of jobID w' = Some j" "Status j = ''complete''"
       "Progress j = int (length strategies)" "Total j = int (length strategies)"
    by auto
  from exec_rows[OF ok runAnalysisJob_events_benign assms(2), of env repoID req strategies lang]
  obtain w'' where
    e: "exec env ?evs ?w0 = Inr w''" "analysis_results w'' = analysis_results ?w0 @ rows_of env ?evs"
    by blast
  from c(1) e(1) have same: "w'' = w'" by (simp add: runAnalysisJob_def)
  have rows: "rows_of env ?evs =
          map (\<lambda>(i, s). \<lparr>col_repo_id = repoID, col_strategy = s,
                 col_summary = failSummary s 3
                   (''run strategy '' @ s @ '': '' @ projl (engine_Run env i 2 s req)),
                 col_details = stored_details env ''{}'', col_score = 0,
                 col_summary_translated = []\<rparr>) (enumerate 0 strategies)"
    by (simp add: runAnalysisJob_events_def rows_of_append rows_of_loop_all_fail[OF assms(1)])
  have h1: "RunAnalysis env jobID repoID req strategies lang w = Inr w'"
    using c(1) by (simp add: RunAnalysis_def)
  have h2: "analysis_results w' = analysis_results w @
          map (\<lambda>(i, s). \<lparr>col_repo_id = repoID, col_strategy = s,
                 col_summary = failSummary s 3
                   (''run strategy '' @ s @ '': '' @ projl (engine_Run env i 2 s req)),
                 col_details = stored_details env ''{}'', col_score = 0,
                 col_summary_translated = []\<rparr>) (enumerate 0 strategies)"
    using e(2) same rows by (simp add: job_created_props)
  have h3: "update_calls ?evs =
          concat (map (\<lambda>(i, s). [EvUpdateJob jobID s (int i) ''running'',
                                   EvUpdateJob jobID s (int i + 1) ''running''])
                      (enumerate 0 strategies))
          @ [EvUpdateJob jobID [] (int (length strategies)) ''complete'']"
    by (simp add: runAnalysisJob_events_def update_calls_append strategy_loop_update_calls)
  have h4: "Progress j = Total j" using c(4,5) by simp
  show ?thesis
    by (rule exI[where x = w'], rule exI[where x = j]) (intro conjI h1 h2 h3 c(2) c(3) h4 c(5))
qed

theorem all_strategies_fail_job_completes_witness:
  "list_all (\<lambda>(i, s). isl (engine_Run failing_env i 0 s ()) \<and>
                      isl (engine_Run failing_env i 1 s ()) \<and>
                      isl (engine_Run failing_env i 2 s ()))
     (enumerate 0 five_strategies) \<and>
   (\<forall>n. db_Exec failing_env n = None) \<and>
   sendable (subs (tracker demo_world) ''job-0001'') (chans (tracker demo_world)) \<and>
   (\<exists>w' j. RunAnalysis failing_env ''job-0001'' ''repo-1'' () five_strategies ''en'' demo_world = Inr w'
      \<and> map col_score (analysis_results w') = [0, 0, 0, 0, 0]
      \<and> map col_strategy (analysis_results w') = five_strategies
      \<and> job_of ''job-0001'' w' = Some j \<and> Status j = ''complete'' \<and> Progress j = 5 \<and> Total j = 5)"
proof -
  have a: "\<forall>(i, s) \<in> set (enumerate 0 five_strategies). \<forall>a \<le> 2.
       isl (engine_Run failing_env i a s ())"
    by (simp add: failing_env_def flaky_env_def)
  have d: "\<forall>n. db_Exec failing_env n = None" by (simp add: failing_env_def flaky_env_def)
  have r: "analysis_results demo_world = []" by (simp add: demo_world_def)
  from all_strategies_fail_job_completes
    [OF a d demo_world_sendable, of "''repo-1''" "''en''"]
  obtain w' j where
    h: "RunAnalysis failing_env ''job-0001'' ''repo-1'' () five_strategies ''en'' demo_world = Inr w'"
       "analysis_results w' = analysis_results demo_world @
          map (\<lambda>(i, s). \<lparr>col_repo_id = ''repo-1'', col_strategy = s,
                 col_summary = failSummary s 3
                   (''run strategy '' @ s @ '': '' @ projl (engine_Run failing_env i 2 s ())),
                 col_details = stored_details failing_env ''{}'', col_score = 0,
                 col_summary_translated = []\<rparr>) (enumerate 0 five_strategies)"
       "job_of ''job-0001'' w' = Some j" "Status j = ''complete''"
       "Progress j = Total j" "Total j = int (length five_strategies)"
    by (elim exE conjE) simp
  have s: "map col_score (analysis_results w') = [0, 0, 0, 0, 0]"
    "map col_strategy (analysis_results w') = five_strategies"
    unfolding h(2) r by (simp_all add: five_strategies_def)
  have p: "Progress j = 5" "Total j = 5" using h(5,6) by (simp_all add: five_strategies_def)
  have ex: "\<exists>w' j. RunAnalysis failing_env ''job-0001'' ''repo-1'' () five_strategies ''en'' demo_world = Inr w'
      \<and> map col_score (analysis_results w') = [0, 0, 0, 0, 0]
      \<and> map col_strategy (analysis_results w') = five_strategies
      \<and> job_of ''job-0001'' w' = Some j \<and> Status j = ''complete'' \<and> Progress j = 5 \<and> Total j = 5"
    by (rule exI[where x = w'], rule exI[where x = j]) (intro conjI h(1) s h(3) h(4) p)
  have a': "list_all (\<lambda>(i, s). isl (engine_Run failing_env i 0 s ()) \<and>
                      isl (engine_Run failing_env i 1 s ()) \<and>
                      isl (engine_Run failing_env i 2 s ()))
     (enumerate 0 five_strategies)"
    by (simp add: failing_env_def flaky_env_def five_strategies_def)
  show ?thesis by (intro conjI a' d demo_world_sendable ex)
qed

text \<open>
  Claim C9. For a job with subscribers (each channel at most once in the list, none
  closed), UpdateJob always returns: a subscriber channel with room gets the snapshot
  appended, a full one is left as it is (the update is dropped for that subscriber
  only), and channels of other lists are untouched. Hence a run of the background loop
  on such a tracker reaches status complete whatever the fill of the channels, so also
  with a subscriber that never takes a message off its channel.
\<close>

theorem UpdateJob_never_blocks:
  assumes "jobs t jid = Some job" and "sendable (subs t jid) (chans t)"
    and "distinct (subs t jid)"
  shows "\<exists>t' snapshot. UpdateJob jid strategy progress status now t = Inr t'
       \<and> jobs t' jid = Some snapshot \<and> Status snapshot = status \<and> Progress snapshot = progress
       \<and> length (chans t') = length (chans t)
       \<and> (\<forall>ch < length (chans t).
            chans t' ! ch =
              (if ch \<in> set (subs t jid) \<and> length (buf (chans t ! ch)) < cap (chans t ! ch)
               then (chans t ! ch)\<lparr>buf := buf (chans t ! ch) @ [snapshot]\<rparr>
               else chans t ! ch))
       \<and> (\<forall>w. tracker w = t \<longrightarrow>
            (\<exists>w' j. runAnalysisJob env jid repoID req strategies lang w = Inr w'
               \<and> job_of jid w' = Some j \<and> Status j = ''complete''))"
proof -
  let ?snap = "apply_update strategy progress status now job"
  from notify_effect[OF assms(3,2), of ?snap] obtain h' where
    h': "notify (subs t jid) ?snap (chans t) = Inr h'" "length h' = length (chans t)"
        "\<forall>k < length (chans t). h' ! k
            = (if k \<in> set (subs t jid) then deliver ?snap (chans t ! k) else chans t ! k)"
    by blast
  let ?t' = "t\<lparr>jobs := (jobs t)(jid \<mapsto> ?snap), chans := h'\<rparr>"
  have u: "UpdateJob jid strategy progress status now t = Inr ?t'"
    using assms(1) h'(1) by (simp add: UpdateJob_def UpdateJob_locked_def Let_def)
  have j: "jobs ?t' jid = Some ?snap" by simp
  have f: "Status ?snap = status" "Progress ?snap = progress"
    by (simp_all add: apply_update_fields)
  have l: "length (chans ?t') = length (chans t)" using h'(2) by simp
  have c: "\<forall>ch < length (chans t).
            chans ?t' ! ch =
              (if ch \<in> set (subs t jid) \<and> length (buf (chans t ! ch)) < cap (chans t ! ch)
               then (chans t ! ch)\<lparr>buf := buf (chans t ! ch) @ [?snap]\<rparr>
               else chans t ! ch)"
    using h'(3) by (simp add: deliver_def)
  have r: "\<forall>w. tracker w = t \<longrightarrow>
            (\<exists>w' j. runAnalysisJob env jid repoID req strategies lang w = Inr w'
               \<and> job_of jid w' = Some j \<and> Status j = ''complete'')"
  proof (intro allI impI)
    fix w :: world
    assume tw: "tracker w = t"
    then have a: "job_of jid w = Some job" "world_ok jid w"
      using assms(1,2) by (simp_all add: job_of_def world_ok_def)
    from runAnalysisJob_completes[OF a, of env repoID req strategies lang]
    show "\<exists>w' j. runAnalysisJob env jid repoID req strategies lang w = Inr w'
               \<and> job_of jid w' = Some j \<and> Status j = ''complete''"
      by blast
  qed
  show ?thesis
    by (rule exI[where x = ?t'], rule exI[where x = ?snap]) (intro conjI u j f l c r)
qed

theorem UpdateJob_never_blocks_witness:
  "jobs slow_tracker ''job-0001'' \<noteq> None \<and>
   sendable (subs slow_tracker ''job-0001'') (chans slow_tracker) \<and>
   distinct (subs slow_tracker ''job-0001'') \<and>
   length (buf (chans slow_tracker ! 0)) = cap (chans slow_tracker ! 0) \<and>
   (\<exists>t' snapshot. UpdateJob ''job-0001'' ''security'' 1 ''running'' 105 slow_tracker = Inr t'
      \<and> jobs t' ''job-0001'' = Some snapshot \<and> Progress snapshot = 1
      \<and> buf (chans t' ! 0) = buf (chans slow_tracker ! 0)
      \<and> buf (chans t' ! 1) = [snapshot]
      \<and> (\<exists>w' j. runAnalysisJob flaky_env ''job-0001'' ''repo-1'' () five_strategies ''en''
                   (demo_world\<lparr>tracker := slow_tracker\<rparr>) = Inr w'
            \<and> job_of ''job-0001'' w' = Some j \<and> Status j = ''complete''))"
proof -
  let ?job = "the (jobs slow_tracker ''job-0001'')"
  have a: "jobs slow_tracker ''job-0001'' = Some ?job" by (simp add: slow_tracker_def Let_def)
  have b: "sendable (subs slow_tracker ''job-0001'') (chans slow_tracker)"
    by (simp add: slow_tracker_def sendable_def Let_def)
  have c: "distinct (subs slow_tracker ''job-0001'')" by (simp add: slow_tracker_def Let_def)
  have d: "length (buf (chans slow_tracker ! 0)) = cap (chans slow_tracker ! 0)"
    by (simp add: slow_tracker_def Let_def)
  have e: "length (chans slow_tracker) = 2" "subs slow_tracker ''job-0001'' = [0, 1]"
    "buf (chans slow_tracker ! 1) = []" "cap (chans slow_tracker ! 1) = 10"
    by (simp_all add: slow_tracker_def Let_def)
  have g: "tracker (demo_world\<lparr>tracker := slow_tracker\<rparr>) = slow_tracker" by simp
  from UpdateJob_never_blocks [OF a b c, of "''security''" 1 "''running''" 105
      flaky_env "''repo-1''" "()" five_strategies "''en''"]
  obtain t' snapshot where
    h: "UpdateJob ''job-0001'' ''security'' 1 ''running'' 105 slow_tracker = Inr t'"
       "jobs t' ''job-0001'' = Some snapshot" "Progress snapshot = 1"
       "\<forall>ch < length (chans slow_tracker).
            chans t' ! ch =
              (if ch \<in> set (subs slow_tracker ''job-0001'')
                  \<and> length (buf (chans slow_tracker ! ch)) < cap (chans slow_tracker ! ch)
               then (chans slow_tracker ! ch)\<lparr>buf := buf (chans slow_tracker ! ch) @ [snapshot]\<rparr>
               else chans slow_tracker ! ch)"
       "\<forall>w. tracker w = slow_tracker \<longrightarrow>
            (\<exists>w' j. runAnalysisJob flaky_env ''job-0001'' ''repo-1'' () five_strategies ''en'' w = Inr w'
               \<and> job_of ''job-0001'' w' = Some j \<and> Status j = ''complete'')"
    by (elim exE conjE) simp
  from h(4) have c0: "buf (chans t' ! 0) = buf (chans slow_tracker ! 0)"
    using d e(1) by simp
  from h(4) have "chans t' ! 1 = (chans slow_tracker ! 1)\<lparr>buf := buf (chans slow_tracker ! 1) @ [snapshot]\<rparr>"
    using e by simp
  then have c1: "buf (chans t' ! 1) = [snapshot]" using e(3) by simp
  from h(5) g have run: "\<exists>w' j. runAnalysisJob flaky_env ''job-0001'' ''repo-1'' () five_strategies ''en''
                   (demo_world\<lparr>tracker := slow_tracker\<rparr>) = Inr w'
            \<and> job_of ''job-0001'' w' = Some j \<and> Status j = ''complete''"
    by blast
  have ex: "\<exists>t' snapshot. UpdateJob ''job-0001'' ''security'' 1 ''running'' 105 slow_tracker = Inr t'
      \<and> jobs t' ''job-0001'' = Some snapshot \<and> Progress snapshot = 1
      \<and> buf (chans t' ! 0) = buf (chans slow_tracker ! 0)
      \<and> buf (chans t' ! 1) = [snapshot]
      \<and> (\<exists>w' j. runAnalysisJob flaky_env ''job-0001'' ''repo-1'' () five_strategies ''en''
                   (demo_world\<lparr>tracker := slow_tracker\<rparr>) = Inr w'
            \<and> job_of ''job-0001'' w' = Some j \<and> Status j = ''complete'')"
    by (rule exI[where x = t'], rule exI[where x = snapshot]) (intro conjI h(1) h(2) h(3) c0 c1 run)
  have n: "jobs slow_tracker ''job-0001'' \<noteq> None" by (simp add: slow_tracker_def Let_def)
  show ?thesis by (intro conjI n b c d ex)
qed

section \<open>Properties of the chunker\<close>

lemma Split_nonempty: "Split s \<noteq> []"
  by (induction s) (auto split: list.splits)

lemma Split_no_newline: "l \<in> set (Split s) \<Longrightarrow> CHR 0x0A \<notin> set l"
proof (induction s arbitrary: l)
  case Nil
  then show ?case by simp
next
  case (Cons c cs)
  show ?case
  proof (cases "c = CHR 0x0A")
    case True
    with Cons show ?thesis by auto
  next
    case False
    obtain l0 ls where s: "Split cs = l0 # ls" using Split_nonempty by (cases "Split cs") auto
    with Cons.prems False have "l = c # l0 \<or> l \<in> set ls" by auto
    then show ?thesis using Cons.IH s False by auto
  qed
qed

lemma Split_single: "CHR 0x0A \<notin> set l \<Longrightarrow> Split l = [l]"
  by (induction l) auto

lemma Split_append_newline:
  "CHR 0x0A \<notin> set l \<Longrightarrow> Split (l @ CHR 0x0A # rest) = l # Split rest"
  by (induction l) auto

lemma Split_Join:
  "ls \<noteq> [] \<Longrightarrow> \<forall>l \<in> set ls. CHR 0x0A \<notin> set l \<Longrightarrow> Split (Join ls) = ls"
proof (induction ls rule: Join.induct)
  case 1
  then show ?case by simp
next
  case (2 l)
  then show ?case by (simp add: Split_single)
next
  case (3 l v va)
  then show ?case by (simp add: Split_append_newline)
qed

lemma chunk_loop_lines:
  "chunk_loop m lines (map Join cl) current len =
     (case lines_loop m lines cl current len of (cl', cur') \<Rightarrow> (map Join cl', cur'))"
proof (induction lines arbitrary: cl current len)
  case Nil
  then show ?case by simp
next
  case (Cons line lines)
  show ?case
  proof (cases "len + wordCount line > m \<and> length current > 0")
    case True
    let ?cur = "drop (length current - (if length current < 3 then length current else 3)) current"
    have "chunk_loop m (line # lines) (map Join cl) current len
        = chunk_loop m lines (map Join (cl @ [current])) (?cur @ [line])
            (sum_list (map wordCount ?cur) + wordCount line)"
      using True by (simp add: Let_def)
    also have "\<dots> = (case lines_loop m lines (cl @ [current]) (?cur @ [line])
                          (sum_list (map wordCount ?cur) + wordCount line)
                     of (cl', cur') \<Rightarrow> (map Join cl', cur'))"
      by (rule Cons.IH)
    also have "\<dots> = (case lines_loop m (line # lines) cl current len
                     of (cl', cur') \<Rightarrow> (map Join cl', cur'))"
      using True by (simp add: Let_def)
    finally show ?thesis .
  next
    case False
    then show ?thesis using Cons.IH[of cl "current @ [line]" "len + wordCount line"] by auto
  qed
qed

lemma overlaps_snoc:
  "cl \<noteq> [] \<Longrightarrow>
   overlaps (cl @ [c]) =
     (overlaps cl \<and> take (min 3 (length (last cl))) c
                      = drop (length (last cl) - min 3 (length (last cl))) (last cl))"
proof (induction cl rule: overlaps.induct)
  case (1 p c' rest)
  then show ?case by auto
next
  case (2 c')
  then show ?case by simp
next
  case 3
  then show ?case by simp
qed

lemma new_lines_snoc:
  "new_lines p (cs @ [c]) = new_lines p cs @ drop (min 3 (length (last (p # cs)))) c"
  by (induction cs arbitrary: p) auto

lemma without_overlaps_snoc:
  "cl \<noteq> [] \<Longrightarrow>
   without_overlaps (cl @ [c]) = without_overlaps cl @ drop (min 3 (length (last cl))) c"
  by (cases cl) (simp_all add: new_lines_snoc)

lemma overlaps_extend_last:
  assumes "overlaps (cl @ [cur])"
  shows "overlaps (cl @ [cur @ [l]])"
proof (cases "cl = []")
  case True
  then show ?thesis by simp
next
  case False
  let ?o = "min 3 (length (last cl))"
  from assms False have a: "overlaps cl"
    "take ?o cur = drop (length (last cl) - ?o) (last cl)"
    by (simp_all add: overlaps_snoc)
  have "length (take ?o cur) = ?o" unfolding a(2) by simp
  then have "?o \<le> length cur" by simp
  then have "take ?o (cur @ [l]) = take ?o cur" by simp
  then show ?thesis using a False by (simp add: overlaps_snoc)
qed

lemma without_overlaps_extend_last:
  assumes "overlaps (cl @ [cur])"
  shows "without_overlaps (cl @ [cur @ [l]]) = without_overlaps (cl @ [cur]) @ [l]"
proof (cases "cl = []")
  case True
  then show ?thesis by simp
next
  case False
  let ?o = "min 3 (length (last cl))"
  from assms False have a: "take ?o cur = drop (length (last cl) - ?o) (last cl)"
    by (simp add: overlaps_snoc)
  have "length (take ?o cur) = ?o" unfolding a by simp
  then have "?o \<le> length cur" by simp
  then show ?thesis using False by (simp add: without_overlaps_snoc)
qed

lemma overlaps_flush:
  assumes "overlaps (cl @ [cur])" "cur \<noteq> []"
  shows "overlaps ((cl @ [cur]) @
           [drop (length cur - (if length cur < 3 then length cur else 3)) cur @ [l]])"
    and "without_overlaps ((cl @ [cur]) @
           [drop (length cur - (if length cur < 3 then length cur else 3)) cur @ [l]])
         = without_overlaps (cl @ [cur]) @ [l]"
proof -
  let ?o = "min 3 (length cur)"
  have o: "(if length cur < 3 then length cur else 3) = ?o" by auto
  have len: "length (drop (length cur - ?o) cur) = ?o" by auto
  have t: "take ?o (drop (length cur - ?o) cur @ [l]) = drop (length cur - ?o) cur"
    using len by simp
  have d: "drop ?o (drop (length cur - ?o) cur @ [l]) = [l]"
    using len by simp
  show "overlaps ((cl @ [cur]) @
           [drop (length cur - (if length cur < 3 then length cur else 3)) cur @ [l]])"
    unfolding o using assms(1) t by (subst overlaps_snoc) simp_all
  show "without_overlaps ((cl @ [cur]) @
           [drop (length cur - (if length cur < 3 then length cur else 3)) cur @ [l]])
         = without_overlaps (cl @ [cur]) @ [l]"
    unfolding o using d by (subst without_overlaps_snoc) simp_all
qed

lemma lines_loop_invariant:
  assumes "current \<noteq> []" "overlaps (cl @ [current])"
    "\<forall>c \<in> set cl. c \<noteq> []"
    "lines_loop m lines cl current len = (cl', cur')"
  shows "cur' \<noteq> [] \<and> overlaps (cl' @ [cur'])
       \<and> without_overlaps (cl' @ [cur']) = without_overlaps (cl @ [current]) @ lines
       \<and> (\<forall>c \<in> set cl'. c \<noteq> [])
       \<and> set (concat (cl' @ [cur'])) \<subseteq> set (concat (cl @ [current])) \<union> set lines"
  using assms
proof (induction lines arbitrary: cl current len)
  case Nil
  then show ?case by simp
next
  case (Cons line lines)
  show ?case
  proof (cases "len + wordCount line > m \<and> length current > 0")
    case True
    let ?cur = "drop (length current - (if length current < 3 then length current else 3)) current"
    have step: "lines_loop m lines (cl @ [current]) (?cur @ [line])
                  (sum_list (map wordCount ?cur) + wordCount line) = (cl', cur')"
      using Cons.prems(4) True by (simp add: Let_def)
    have a: "?cur @ [line] \<noteq> []" by simp
    have b: "overlaps ((cl @ [current]) @ [?cur @ [line]])"
      using overlaps_flush(1)[OF Cons.prems(2,1)] .
    have c: "\<forall>c \<in> set (cl @ [current]). c \<noteq> []" using Cons.prems(1,3) by simp
    have w: "without_overlaps ((cl @ [current]) @ [?cur @ [line]])
               = without_overlaps (cl @ [current]) @ [line]"
      using overlaps_flush(2)[OF Cons.prems(2,1)] .
    have sub: "set ?cur \<subseteq> set current" by (rule set_drop_subset)
    from Cons.IH[OF a b c step] w sub show ?thesis by auto
  next
    case False
    have step: "lines_loop m lines cl (current @ [line]) (len + wordCount line) = (cl', cur')"
      using Cons.prems(4) False by auto
    have a: "current @ [line] \<noteq> []" by simp
    have b: "overlaps (cl @ [current @ [line]])"
      using overlaps_extend_last[OF Cons.prems(2)] .
    have w: "without_overlaps (cl @ [current @ [line]]) = without_overlaps (cl @ [current]) @ [line]"
      using without_overlaps_extend_last[OF Cons.prems(2)] .
    from Cons.IH[OF a b Cons.prems(3) step] w show ?thesis by auto
  qed
qed

lemma chunkCode_lines:
  "\<exists>cl. cl \<noteq> [] \<and> chunkCode content m = map Join cl \<and> map Split (chunkCode content m) = cl
        \<and> overlaps cl \<and> without_overlaps cl = Split content"
proof -
  obtain l0 ls where sp: "Split content = l0 # ls"
    using Split_nonempty by (cases "Split content") auto
  obtain cl' cur' where ll: "lines_loop m ls [] [l0] (0 + wordCount l0) = (cl', cur')"
    by (metis surj_pair)
  have first: "lines_loop m (Split content) [] [] 0 = (cl', cur')"
    using sp ll by simp
  from lines_loop_invariant[OF _ _ _ ll] have inv:
    "cur' \<noteq> []" "overlaps (cl' @ [cur'])"
    "without_overlaps (cl' @ [cur']) = l0 # ls"
    "\<forall>c \<in> set cl'. c \<noteq> []"
    "set (concat (cl' @ [cur'])) \<subseteq> set (l0 # ls)"
    by auto
  have "chunk_loop m (Split content) [] [] 0 = (map Join cl', cur')"
    using chunk_loop_lines[of m "Split content" "[]" "[]" 0] first by simp
  then have cc: "chunkCode content m = map Join (cl' @ [cur'])"
    using inv(1) by (simp add: chunkCode_def)
  have nl: "\<forall>c \<in> set (cl' @ [cur']). c \<noteq> [] \<and> (\<forall>l \<in> set c. CHR 0x0A \<notin> set l)"
  proof
    fix c assume c: "c \<in> set (cl' @ [cur'])"
    then have "c \<noteq> []" using inv(1,4) by auto
    moreover have "\<forall>l \<in> set c. CHR 0x0A \<notin> set l"
    proof
      fix l assume "l \<in> set c"
      then have "l \<in> set (concat (cl' @ [cur']))" using c by auto
      then have "l \<in> set (Split content)" using inv(5) sp by auto
      then show "CHR 0x0A \<notin> set l" by (rule Split_no_newline)
    qed
    ultimately show "c \<noteq> [] \<and> (\<forall>l \<in> set c. CHR 0x0A \<notin> set l)" by simp
  qed
  have "map (\<lambda>c. Split (Join c)) (cl' @ [cur']) = cl' @ [cur']"
  proof (rule map_idI)
    fix c assume "c \<in> set (cl' @ [cur'])"
    with nl have "c \<noteq> []" "\<forall>l \<in> set c. CHR 0x0A \<notin> set l" by blast+
    then show "Split (Join c) = c" by (rule Split_Join)
  qed
  then have "map Split (map Join (cl' @ [cur'])) = cl' @ [cur']"
    by (simp add: comp_def)
  then have ms: "map Split (chunkCode content m) = cl' @ [cur']" using cc by simp
  show ?thesis
    by (rule exI[where x = "cl' @ [cur']"]) (use cc ms inv(2,3) sp in simp)
qed

lemma overlaps_nth:
  "overlaps cl \<Longrightarrow> Suc k < length cl \<Longrightarrow>
   take (min 3 (length (cl ! k))) (cl ! Suc k)
     = drop (length (cl ! k) - min 3 (length (cl ! k))) (cl ! k)"
proof (induction cl arbitrary: k rule: overlaps.induct)
  case (1 p c rest)
  show ?case
  proof (cases k)
    case 0
    with "1.prems" show ?thesis by simp
  next
    case (Suc j)
    with "1.prems" "1.IH"[of j] show ?thesis by simp
  qed
qed simp_all

lemma new_lines_nth:
  "new_lines p cs =
     concat (map (\<lambda>k. drop (min 3 (length ((p # cs) ! k))) ((p # cs) ! Suc k)) [0..<length cs])"
proof (induction cs arbitrary: p)
  case Nil
  then show ?case by simp
next
  case (Cons c cs)
  have "[0..<length (c # cs)] = 0 # map Suc [0..<length cs]"
    by (simp add: upt_conv_Cons map_Suc_upt del: upt_Suc)
  then show ?case by (simp add: Cons.IH comp_def del: upt_Suc)
qed

lemma without_overlaps_nth:
  "cl \<noteq> [] \<Longrightarrow>
   without_overlaps cl =
     hd cl @ concat (map (\<lambda>k. drop (min 3 (length (cl ! k))) (cl ! Suc k)) [0..<length cl - 1])"
  by (cases cl) (simp_all add: new_lines_nth del: upt_Suc)

text \<open>
  Claim C8. For every content and token limit, read each emitted chunk as its list of
  lines. There is at least one chunk; every chunk after the first begins with the last
  \<open>min 3 n\<close> lines of the previous chunk, \<open>n\<close> being the previous chunk's number of
  lines; and the first chunk followed by every later chunk without its leading
  \<open>min 3 n\<close> lines is the line sequence of the content, in order.
\<close>

theorem chunks_overlap_and_reconstruct:
  "let chunks = map Split (chunkCode content maxTokens)
   in chunks \<noteq> []
      \<and> (\<forall>k. Suc k < length chunks \<longrightarrow>
            take (min 3 (length (chunks ! k))) (chunks ! Suc k)
              = drop (length (chunks ! k) - min 3 (length (chunks ! k))) (chunks ! k))
      \<and> hd chunks @
          concat (map (\<lambda>k. drop (min 3 (length (chunks ! k))) (chunks ! Suc k))
                      [0..<length chunks - 1])
        = Split content"
proof -
  from chunkCode_lines[of content maxTokens] obtain cl where
    cl: "cl \<noteq> []" "map Split (chunkCode content maxTokens) = cl" "overlaps cl"
        "without_overlaps cl = Split content"
    by blast
  have a: "\<forall>k. Suc k < length cl \<longrightarrow>
            take (min 3 (length (cl ! k))) (cl ! Suc k)
              = drop (length (cl ! k) - min 3 (length (cl ! k))) (cl ! k)"
    using overlaps_nth[OF cl(3)] by blast
  have b: "hd cl @ concat (map (\<lambda>k. drop (min 3 (length (cl ! k))) (cl ! Suc k))
                      [0..<length cl - 1]) = Split content"
    using without_overlaps_nth[OF cl(1)] cl(4) by simp
  show ?thesis unfolding Let_def cl(2) using cl(1) a b by blast
qed

text \<open>
  Claim C4 (the part on empty input). \<^verbatim>\<open>strings.Split\<close> of the empty text is one empty
  line, so for empty content the chunker emits one chunk, the empty text, for every
  token limit; the claim says it emits none. Hence the test \<^verbatim>\<open>len(chunks) == 0\<close> of
  \<^verbatim>\<open>IndexChunks\<close> never holds, and an empty file is embedded and stored as one row with
  empty content.
\<close>

theorem chunkCode_empty_content:
  "chunkCode [] maxTokens = [[]] \<and>
   IndexChunks empty_index_env ''repo-1'' ''snap-1'' [(''pkg/__init__.py'', [])] [] =
     Inr (None, [\<lparr>Embedding.ID = [], SnapshotID = ''snap-1'', Embedding.RepoID = ''repo-1'',
                  FilePath = ''pkg/__init__.py'', ChunkIndex = 0, Content = [],
                  Language = ''python'', Vector = [1, 0], CreatedAt = 0\<rparr>])"
proof -
  have c: "chunkCode [] m = [[]]" for m by (simp add: chunkCode_def)
  have l: "detectLanguage ''pkg/__init__.py'' = ''python''"
    by (simp add: detectLanguage_def ToLower_def HasSuffix_def Let_def)
  show ?thesis
    by (simp add: c l IndexChunks_def StoreBatchEmbeddings_def empty_index_env_def Let_def)
qed

lemma chunkCode_nonempty: "chunkCode content maxTokens \<noteq> []"
  using chunkCode_lines[of content maxTokens] by auto

lemma sample_chunks:
  "chunkCode sample_content 7 =
     [''a b'' @ [CHR 0x0A] @ ''c d'' @ [CHR 0x0A] @ ''e f'',
      ''a b'' @ [CHR 0x0A] @ ''c d'' @ [CHR 0x0A] @ ''e f'' @ [CHR 0x0A] @ ''g h'',
      ''c d'' @ [CHR 0x0A] @ ''e f'' @ [CHR 0x0A] @ ''g h'' @ [CHR 0x0A] @ ''i j'',
      ''e f'' @ [CHR 0x0A] @ ''g h'' @ [CHR 0x0A] @ ''i j'' @ [CHR 0x0A] @ ''k l'']"
  by (simp add: chunkCode_def sample_content_def wordCount_def Fields_def Let_def)

theorem chunks_overlap_and_reconstruct_witness:
  "map Split (chunkCode sample_content 7) =
     [[''a b'', ''c d'', ''e f''], [''a b'', ''c d'', ''e f'', ''g h''],
      [''c d'', ''e f'', ''g h'', ''i j''], [''e f'', ''g h'', ''i j'', ''k l'']] \<and>
   (let chunks = map Split (chunkCode sample_content 7)
    in chunks \<noteq> []
      \<and> (\<forall>k. Suc k < length chunks \<longrightarrow>
            take (min 3 (length (chunks ! k))) (chunks ! Suc k)
              = drop (length (chunks ! k) - min 3 (length (chunks ! k))) (chunks ! k))
      \<and> hd chunks @
          concat (map (\<lambda>k. drop (min 3 (length (chunks ! k))) (chunks ! Suc k))
                      [0..<length chunks - 1])
        = Split sample_content)"
proof -
  have "map Split (chunkCode sample_content 7) =
     [[''a b'', ''c d'', ''e f''], [''a b'', ''c d'', ''e f'', ''g h''],
      [''c d'', ''e f'', ''g h'', ''i j''], [''e f'', ''g h'', ''i j'', ''k l'']]"
    by (simp add: sample_chunks)
  then show ?thesis
    using chunks_overlap_and_reconstruct [of sample_content 7] by simp
qed

section \<open>Properties of the RAG service\<close>

lemma Query_zero_chunks:
  "Embed env question = Inr queryVector \<Longrightarrow>
   SearchSimilar env repoID queryVector 10 = Inr [] \<Longrightarrow>
   Query env repoID question =
     ([CallEmbed question, CallSearchSimilar repoID queryVector 10],
      ''No relevant code found for this query.'', [], None)"
  by (simp add: Query_def)

text \<open>
  Claim C5 (the part on the streaming variant). On a repository for which the
  similarity search returns no chunk, \<^verbatim>\<open>Query\<close> returns the fixed answer with no source,
  no error and no chat call; \<^verbatim>\<open>QueryStream\<close> on the same input has no such check: it
  calls \<^verbatim>\<open>ChatStream\<close> with an empty context and returns the provider's stream.
\<close>

theorem QueryStream_zero_chunks_calls_chat:
  "Query empty_index_env ''repo-1'' ''where is main?'' =
     ([CallEmbed ''where is main?'', CallSearchSimilar ''repo-1'' [1, 0] 10],
      ''No relevant code found for this query.'', [], None) \<and>
   QueryStream empty_index_env ''repo-1'' ''where is main?'' =
     ([CallEmbed ''where is main?'', CallSearchSimilar ''repo-1'' [1, 0] 10,
       CallChatStream stream_systemPrompt ''where is main?'' []],
      [''A streamed'', '' answer.''], [], None)"
  by (simp add: Query_def QueryStream_def empty_index_env_def)

lemma build_embeddings_rows:
  "i + length chunks \<le> length vectors \<Longrightarrow>
   build_embeddings snapshotID repoID filePath i chunks vectors =
     Inr (map (\<lambda>(k, chunk). \<lparr>Embedding.ID = [], SnapshotID = snapshotID, Embedding.RepoID = repoID,
                          FilePath = filePath, ChunkIndex = int k, Content = chunk,
                          Language = detectLanguage filePath, Vector = vectors ! k,
                          CreatedAt = 0\<rparr>)
              (enumerate i chunks))"
  by (induction chunks arbitrary: i) simp_all

lemma index_files_failed:
  assumes "isl (EmbedBatch env f (chunkCode c 512))"
  shows "index_files env repoID snapshotID ((f, c) # rest) table
           = index_files env repoID snapshotID rest table"
proof -
  from assms obtain err where "EmbedBatch env f (chunkCode c 512) = Inl err"
    by (auto simp: isl_def)
  then show ?thesis by (simp add: Let_def)
qed

lemma index_files_stored:
  assumes "EmbedBatch env f (chunkCode c 512) = Inr vs" "length (chunkCode c 512) \<le> length vs"
    "tx_error env f = None"
  shows "index_files env repoID snapshotID ((f, c) # rest) table
           = index_files env repoID snapshotID rest
               (table @ file_rows snapshotID repoID f (chunkCode c 512) vs)"
proof -
  have b: "build_embeddings snapshotID repoID f 0 (chunkCode c 512) vs
             = Inr (file_rows snapshotID repoID f (chunkCode c 512) vs)"
    using build_embeddings_rows[of 0 "chunkCode c 512" vs] assms(2)
    by (simp add: file_rows_def)
  have s: "snd (StoreBatchEmbeddings env f (file_rows snapshotID repoID f (chunkCode c 512) vs) table)
             = table @ file_rows snapshotID repoID f (chunkCode c 512) vs"
    using assms(3) by (simp add: StoreBatchEmbeddings_def)
  show ?thesis using assms(1) b s chunkCode_nonempty[of c 512] by (simp add: Let_def)
qed

lemma index_files_one_failure:
  assumes "\<forall>(f, c) \<in> set files. f = b \<longrightarrow> isl (EmbedBatch env f (chunkCode c 512))"
    and "\<forall>(f, c) \<in> set files. f \<noteq> b \<longrightarrow>
           (\<exists>vs. EmbedBatch env f (chunkCode c 512) = Inr vs
                 \<and> length (chunkCode c 512) \<le> length vs) \<and> tx_error env f = None"
  shows "index_files env repoID snapshotID files table =
     Inr (table @ concat (map (\<lambda>(f, c). if f = b then []
              else file_rows snapshotID repoID f (chunkCode c 512)
                     (projr (EmbedBatch env f (chunkCode c 512)))) files))"
  using assms
proof (induction files arbitrary: table)
  case Nil
  then show ?case by simp
next
  case (Cons fc files)
  obtain f c where fc: "fc = (f, c)" by (cases fc)
  from Cons.prems have rest:
    "\<forall>(f, c) \<in> set files. f = b \<longrightarrow> isl (EmbedBatch env f (chunkCode c 512))"
    "\<forall>(f, c) \<in> set files. f \<noteq> b \<longrightarrow>
           (\<exists>vs. EmbedBatch env f (chunkCode c 512) = Inr vs
                 \<and> length (chunkCode c 512) \<le> length vs) \<and> tx_error env f = None"
    by simp_all
  show ?case
  proof (cases "f = b")
    case True
    with Cons.prems(1) fc have "isl (EmbedBatch env f (chunkCode c 512))" by simp
    from index_files_failed[OF this] Cons.IH[OF rest] True fc show ?thesis by simp
  next
    case False
    with Cons.prems(2) fc obtain vs where
      vs: "EmbedBatch env f (chunkCode c 512) = Inr vs" "length (chunkCode c 512) \<le> length vs"
          "tx_error env f = None" by auto
    from index_files_stored[OF vs] Cons.IH[OF rest] False fc vs(1) show ?thesis by simp
  qed
qed

lemma set_concat_member: "xs \<in> set xss \<Longrightarrow> set xs \<subseteq> set (concat xss)"
  by auto

text \<open>
  Claim C7. \<^verbatim>\<open>IndexChunks\<close> is given files (a map, so the paths are distinct) of which
  exactly file \<open>b\<close> has its batched embedding call fail: for every other file the call
  returns at least one vector per chunk and the store commits the batch. Then the
  call returns the nil error, and the table is the old table followed, in iteration
  order, by the rows of every file but \<open>b\<close>: one row per chunk of the file, so every
  chunk of every other file is stored and nothing of \<open>b\<close> is.
\<close>

theorem IndexChunks_skips_failed_file:
  assumes "distinct (map fst files)" and "(b, cb) \<in> set files"
    and "isl (EmbedBatch env b (chunkCode cb 512))"
    and "\<forall>(f, c) \<in> set files. f \<noteq> b \<longrightarrow>
           (\<exists>vs. EmbedBatch env f (chunkCode c 512) = Inr vs
                 \<and> length (chunkCode c 512) \<le> length vs) \<and> tx_error env f = None"
  shows "\<exists>table'. IndexChunks env repoID snapshotID files table = Inr (None, table')
      \<and> table' = table @ concat (map (\<lambda>(f, c). if f = b then []
              else file_rows snapshotID repoID f (chunkCode c 512)
                     (projr (EmbedBatch env f (chunkCode c 512)))) files)
      \<and> (\<forall>(f, c) \<in> set files. f \<noteq> b \<longrightarrow>
            set (file_rows snapshotID repoID f (chunkCode c 512)
                   (projr (EmbedBatch env f (chunkCode c 512)))) \<subseteq> set table'
            \<and> length (file_rows snapshotID repoID f (chunkCode c 512)
                   (projr (EmbedBatch env f (chunkCode c 512)))) = length (chunkCode c 512))"
proof -
  have only: "\<forall>(f, c) \<in> set files. f = b \<longrightarrow> isl (EmbedBatch env f (chunkCode c 512))"
  proof (clarify)
    fix c assume "(b, c) \<in> set files"
    with assms(1,2) have "c = cb" by (meson eq_key_imp_eq_value)
    then show "isl (EmbedBatch env b (chunkCode c 512))" using assms(3) by simp
  qed
  let ?t = "table @ concat (map (\<lambda>(f, c). if f = b then []
              else file_rows snapshotID repoID f (chunkCode c 512)
                     (projr (EmbedBatch env f (chunkCode c 512)))) files)"
  have r: "IndexChunks env repoID snapshotID files table = Inr (None, ?t)"
    using index_files_one_failure[OF only assms(4)] by (simp add: IndexChunks_def)
  have m: "\<forall>(f, c) \<in> set files. f \<noteq> b \<longrightarrow>
            set (file_rows snapshotID repoID f (chunkCode c 512)
                   (projr (EmbedBatch env f (chunkCode c 512)))) \<subseteq> set ?t
            \<and> length (file_rows snapshotID repoID f (chunkCode c 512)
                   (projr (EmbedBatch env f (chunkCode c 512)))) = length (chunkCode c 512)"
  proof (clarify)
    fix f c assume fc: "(f, c) \<in> set files" "f \<noteq> b"
    let ?rows = "file_rows snapshotID repoID f (chunkCode c 512)
                   (projr (EmbedBatch env f (chunkCode c 512)))"
    let ?g = "\<lambda>(f, c). if f = b then []
              else file_rows snapshotID repoID f (chunkCode c 512)
                     (projr (EmbedBatch env f (chunkCode c 512)))"
    have "?g (f, c) \<in> ?g ` set files" using fc(1) by (rule imageI)
    then have "?rows \<in> set (map ?g files)" using fc(2) by simp
    then have "set ?rows \<subseteq> set (concat (map ?g files))" by (rule set_concat_member)
    then have a: "set ?rows \<subseteq> set ?t" unfolding set_append by (rule le_supI2)
    have b: "length ?rows = length (chunkCode c 512)" by (simp add: file_rows_def)
    show "set ?rows \<subseteq> set ?t \<and> length ?rows = length (chunkCode c 512)"
      using a b by simp
  qed
  show ?thesis by (rule exI[where x = ?t]) (intro conjI r refl m)
qed

theorem IndexChunks_skips_failed_file_witness:
  "distinct (map fst three_files) \<and> (''b.py'', ''import b'') \<in> set three_files \<and>
   isl (EmbedBatch flaky_embed_env ''b.py'' (chunkCode ''import b'' 512)) \<and>
   list_all (\<lambda>(f, c). f = ''b.py'' \<or>
       \<not> isl (EmbedBatch flaky_embed_env f (chunkCode c 512)) \<and>
       length (chunkCode c 512) \<le> length (projr (EmbedBatch flaky_embed_env f (chunkCode c 512))) \<and>
       tx_error flaky_embed_env f = None) three_files \<and>
   (\<exists>table'. IndexChunks flaky_embed_env ''repo-1'' ''snap-1'' three_files [] = Inr (None, table')
      \<and> map FilePath table' = [''a.go'', ''c.md'']
      \<and> map Content table' = [''package a'', ''# c''])"
proof -
  have ch: "chunkCode ''package a'' 512 = [''package a'']" "chunkCode ''import b'' 512 = [''import b'']"
    "chunkCode ''# c'' 512 = [''# c'']"
    by (simp_all add: chunkCode_def wordCount_def Fields_def)
  have a: "distinct (map fst three_files)" by (simp add: three_files_def)
  have b: "(''b.py'', ''import b'') \<in> set three_files" by (simp add: three_files_def)
  have c: "isl (EmbedBatch flaky_embed_env ''b.py'' (chunkCode ''import b'' 512))"
    by (simp add: flaky_embed_env_def empty_index_env_def)
  have d: "\<forall>(f, c) \<in> set three_files. f \<noteq> ''b.py'' \<longrightarrow>
           (\<exists>vs. EmbedBatch flaky_embed_env f (chunkCode c 512) = Inr vs
                 \<and> length (chunkCode c 512) \<le> length vs) \<and> tx_error flaky_embed_env f = None"
    by (simp add: three_files_def flaky_embed_env_def empty_index_env_def)
  have d': "list_all (\<lambda>(f, c). f = ''b.py'' \<or>
       \<not> isl (EmbedBatch flaky_embed_env f (chunkCode c 512)) \<and>
       length (chunkCode c 512) \<le> length (projr (EmbedBatch flaky_embed_env f (chunkCode c 512))) \<and>
       tx_error flaky_embed_env f = None) three_files"
    by (simp add: three_files_def flaky_embed_env_def empty_index_env_def)
  from IndexChunks_skips_failed_file [OF a b c d, of "''repo-1''" "''snap-1''" "[]"]
  obtain table' where
    t: "IndexChunks flaky_embed_env ''repo-1'' ''snap-1'' three_files [] = Inr (None, table')"
       "table' = [] @ concat (map (\<lambda>(f, c). if f = ''b.py'' then []
              else file_rows ''snap-1'' ''repo-1'' f (chunkCode c 512)
                     (projr (EmbedBatch flaky_embed_env f (chunkCode c 512)))) three_files)"
    by (elim exE conjE) simp
  have p: "map FilePath table' = [''a.go'', ''c.md'']" "map Content table' = [''package a'', ''# c'']"
    unfolding t(2) by (simp_all add: three_files_def file_rows_def ch)
  have ex: "\<exists>table'. IndexChunks flaky_embed_env ''repo-1'' ''snap-1'' three_files [] = Inr (None, table')
      \<and> map FilePath table' = [''a.go'', ''c.md'']
      \<and> map Content table' = [''package a'', ''# c'']"
    by (rule exI[where x = table']) (intro conjI t(1) p)
  show ?thesis by (intro conjI a b c d' ex)
qed

end
